theory Spec2Isabelle
  imports Complex_Main "HOL-Library.Monad_Syntax"
begin

section \<open>Action scheduling (action.h, action.cpp)\<close>

text \<open>
  The type \<open>real\<close> of the sources (a C float) is modelled by the mathematical reals:
  the scheduler only compares priorities and copies them.

  Actions live in an object store. An \<open>Action*\<close> is an \<open>addr option\<close> (\<open>None\<close> is
  \<open>NULL\<close>); the store maps every address to the object's fields. A subclass of
  \<open>Action\<close> is an extension of the record, and the virtual functions the subclass
  supplies are the fields of \<open>Action_class\<close>: the three queries read the object,
  \<open>act\<close> returns the object as it leaves it.
\<close>

type_synonym addr = nat

record Action =
  priority :: real
  "next" :: "addr option"

record 'z Action_class =
  canInterrupt :: "'z Action_scheme \<Rightarrow> bool"
  canDoBoth :: "'z Action_scheme \<Rightarrow> 'z Action_scheme \<Rightarrow> bool"
  isComplete :: "'z Action_scheme \<Rightarrow> bool"
  act :: "'z Action_scheme \<Rightarrow> 'z Action_scheme"

text \<open>The default implementations of the base class \<open>Action\<close>.\<close>

definition Action_base :: "'z Action_class" where
  "Action_base =
     \<lparr>canInterrupt = (\<lambda>this. False),
      canDoBoth = (\<lambda>this other. False),
      isComplete = (\<lambda>this. True),
      act = (\<lambda>this. this)\<rparr>"

text \<open>
  \<open>ActionManager\<close>: its three fields, the object store, and the set of objects that
  have not been deleted.
\<close>

record 'z ActionManager =
  activePriority :: real
  actionQueue :: "addr option"
  active :: "addr option"
  heap :: "addr \<Rightarrow> 'z Action_scheme"
  allocated :: "addr set"

text \<open>The constructor \<open>ActionManager::ActionManager\<close>, over a given store.\<close>

definition ActionManager_new ::
  "(addr \<Rightarrow> 'z Action_scheme) \<Rightarrow> addr set \<Rightarrow> 'z ActionManager" where
  "ActionManager_new h live =
     \<lparr>activePriority = 0, actionQueue = None, active = None, heap = h, allocated = live\<rparr>"

text \<open>
  The loops walk the lists with an \<open>Action** previous\<close>: the place that holds the
  pointer to the current node. It is a head field of the manager or the \<open>next\<close> field
  of an action.
\<close>

datatype slot = QueueHead | ActiveHead | NextOf addr

definition store :: "slot \<Rightarrow> addr option \<Rightarrow> 'z ActionManager \<Rightarrow> 'z ActionManager" where
  "store previous v m =
     (case previous of
        QueueHead \<Rightarrow> m\<lparr>actionQueue := v\<rparr>
      | ActiveHead \<Rightarrow> m\<lparr>active := v\<rparr>
      | NextOf a \<Rightarrow> m\<lparr>heap := (heap m)(a := (heap m a)\<lparr>next := v\<rparr>)\<rparr>)"

definition set_next :: "addr \<Rightarrow> addr option \<Rightarrow> 'z ActionManager \<Rightarrow> 'z ActionManager" where
  "set_next a v m = m\<lparr>heap := (heap m)(a := (heap m a)\<lparr>next := v\<rparr>)\<rparr>"

definition delete :: "addr \<Rightarrow> 'z ActionManager \<Rightarrow> 'z ActionManager" where
  "delete a m = m\<lparr>allocated := allocated m - {a}\<rparr>"

text \<open>
  \<open>Action::deleteList\<close>: delete the rest of the list, then this node. (The override
  in \<open>ActionCompound\<close>, which deletes the sub-actions first, is not modelled: the
  actions here have no sub-actions.) A loop or a recursion over the store need not end on
  a cyclic list, so each one is a partial function into \<open>option\<close>: the value
  \<open>None\<close> is a run that never returns.
\<close>

partial_function (option) deleteList :: "'z ActionManager \<Rightarrow> addr \<Rightarrow> 'z ActionManager option" where
  "deleteList m this =
     do {
       m1 \<leftarrow> (case next (heap m this) of
                None \<Rightarrow> Some m
              | Some n \<Rightarrow> deleteList m n);
       Some (delete this m1)
     }"

text \<open>
  \<open>ActionManager::scheduleAction\<close>: the loop finds the place of insertion, the two
  assignments after it link the new action in.
\<close>

partial_function (option) scheduleAction_loop ::
  "'z ActionManager \<Rightarrow> addr \<Rightarrow> slot \<Rightarrow> addr option \<Rightarrow> (slot \<times> addr option) option" where
  "scheduleAction_loop m newAction previous nxt =
     (case nxt of
        None \<Rightarrow> Some (previous, nxt)
      | Some n \<Rightarrow>
          if priority (heap m newAction) > priority (heap m n)
          then Some (previous, nxt)
          else scheduleAction_loop m newAction (NextOf n) (next (heap m n)))"

definition scheduleAction :: "'z ActionManager \<Rightarrow> addr \<Rightarrow> 'z ActionManager option" where
  "scheduleAction m newAction =
     do {
       (previous, nxt) \<leftarrow> scheduleAction_loop m newAction QueueHead (actionQueue m);
       Some (set_next newAction nxt (store previous (Some newAction) m))
     }"

text \<open>\<open>ActionManager::checkInterrupts\<close>.\<close>

partial_function (option) checkInterrupts_loop ::
  "'z Action_class \<Rightarrow> 'z ActionManager \<Rightarrow> slot \<Rightarrow> addr option \<Rightarrow> 'z ActionManager option" where
  "checkInterrupts_loop cls m previous nxt =
     (case nxt of
        None \<Rightarrow> Some m
      | Some n \<Rightarrow>
          if priority (heap m n) < activePriority m then Some m
          else if canInterrupt cls (heap m n) then
            do {
              m1 \<leftarrow> (case active m of None \<Rightarrow> Some m | Some a \<Rightarrow> deleteList m a);
              let m2 = m1\<lparr>active := Some n\<rparr>;
              let m3 = m2\<lparr>activePriority := priority (heap m2 n)\<rparr>;
              let m4 = store previous (next (heap m3 n)) m3;
              Some (set_next n None m4)
            }
          else checkInterrupts_loop cls m (NextOf n) (next (heap m n)))"

definition checkInterrupts :: "'z Action_class \<Rightarrow> 'z ActionManager \<Rightarrow> 'z ActionManager option" where
  "checkInterrupts cls m = checkInterrupts_loop cls m QueueHead (actionQueue m)"

text \<open>
  \<open>ActionManager::addAllToActive\<close>. The inner \<open>while (inActive != NULL)\<close> has no
  statement that changes \<open>inActive\<close>: its body either jumps to \<open>nextInQueue\<close> (the
  result \<open>False\<close>) or runs again with the same \<open>inActive\<close>. It falls through (the
  result \<open>True\<close>) only when \<open>inActive\<close> is \<open>NULL\<close> at the start.
\<close>

partial_function (option) addAllToActive_inner ::
  "'z Action_class \<Rightarrow> 'z ActionManager \<Rightarrow> addr option \<Rightarrow> addr \<Rightarrow> bool option" where
  "addAllToActive_inner cls m inActive n =
     (case inActive of
        None \<Rightarrow> Some True
      | Some ia \<Rightarrow>
          if \<not> canDoBoth cls (heap m ia) (heap m n) \<or> \<not> canDoBoth cls (heap m n) (heap m ia)
          then Some False
          else addAllToActive_inner cls m inActive n)"

partial_function (option) addAllToActive_loop ::
  "'z Action_class \<Rightarrow> 'z ActionManager \<Rightarrow> slot \<Rightarrow> addr option \<Rightarrow> 'z ActionManager option" where
  "addAllToActive_loop cls m previous nxt =
     (case nxt of
        None \<Rightarrow> Some m
      | Some n \<Rightarrow>
          do {
            compatible \<leftarrow> addAllToActive_inner cls m (active m) n;
            if compatible then
              (let m1 = store previous (next (heap m n)) m;
                   m2 = set_next n (active m1) m1;
                   m3 = m2\<lparr>active := Some n\<rparr>
               in addAllToActive_loop cls m3 previous (next (heap m3 n)))
            else addAllToActive_loop cls m (NextOf n) (next (heap m n))
          })"

definition addAllToActive :: "'z Action_class \<Rightarrow> 'z ActionManager \<Rightarrow> 'z ActionManager option" where
  "addAllToActive cls m = addAllToActive_loop cls m QueueHead (actionQueue m)"

text \<open>\<open>ActionManager::runActive\<close>.\<close>

partial_function (option) runActive_loop ::
  "'z Action_class \<Rightarrow> 'z ActionManager \<Rightarrow> slot \<Rightarrow> addr option \<Rightarrow> 'z ActionManager option" where
  "runActive_loop cls m previous nxt =
     (case nxt of
        None \<Rightarrow> Some m
      | Some n \<Rightarrow>
          (let m1 = m\<lparr>heap := (heap m)(n := act cls (heap m n))\<rparr>
           in if isComplete cls (heap m1 n) then
                (let m2 = store previous (next (heap m1 n)) m1;
                     temp = n;
                     nxt' = next (heap m2 n)
                 in runActive_loop cls (delete temp m2) previous nxt')
              else runActive_loop cls m1 (NextOf n) (next (heap m1 n))))"

definition runActive :: "'z Action_class \<Rightarrow> 'z ActionManager \<Rightarrow> 'z ActionManager option" where
  "runActive cls m = runActive_loop cls m ActiveHead (active m)"

text \<open>\<open>ActionManager::execute\<close>.\<close>

definition execute :: "'z Action_class \<Rightarrow> 'z ActionManager \<Rightarrow> 'z ActionManager option" where
  "execute cls m =
     do {
       m1 \<leftarrow> checkInterrupts cls m;
       m2 \<leftarrow> addAllToActive cls m1;
       runActive cls m2
     }"

text \<open>
  The list that starts at a pointer: \<open>chain h p as\<close> holds when following \<open>next\<close> from
  \<open>p\<close> visits exactly the addresses \<open>as\<close> and then reaches \<open>NULL\<close>.
\<close>

fun chain :: "(addr \<Rightarrow> 'z Action_scheme) \<Rightarrow> addr option \<Rightarrow> addr list \<Rightarrow> bool" where
  "chain h p [] = (p = None)"
| "chain h p (a # as) = (p = Some a \<and> chain h (next (h a)) as)"


section \<open>Vectors and primitives (aimath.h, location.h)\<close>

text \<open>
  \<open>Vector3\<close> with the operations that \<open>Path::getMaxPriority\<close> and the basic
  actuator use. The components are called \<open>vx\<close>, \<open>vy\<close>, \<open>vz\<close> here. Arithmetic
  is that of the reals: rounding of the C floats is not part of the model, so no property
  below rests on the value of such a computation, except at the small whole numbers of
  the concrete scenarios, where float and real arithmetic agree.
\<close>

record Vector3 =
  vx :: real
  vy :: real
  vz :: real

definition Vector3_zero :: Vector3 where
  "Vector3_zero = \<lparr>vx = 0, vy = 0, vz = 0\<rparr>"

definition Vector3_sub :: "Vector3 \<Rightarrow> Vector3 \<Rightarrow> Vector3" where
  "Vector3_sub u v = \<lparr>vx = vx u - vx v, vy = vy u - vy v, vz = vz u - vz v\<rparr>"

definition Vector3_scale :: "Vector3 \<Rightarrow> real \<Rightarrow> Vector3" where
  "Vector3_scale u k = \<lparr>vx = vx u * k, vy = vy u * k, vz = vz u * k\<rparr>"

definition magnitude :: "Vector3 \<Rightarrow> real" where
  "magnitude u = sqrt (vx u * vx u + vy u * vy u + vz u * vz u)"

definition squareMagnitude :: "Vector3 \<Rightarrow> real" where
  "squareMagnitude u = vx u * vx u + vy u * vy u + vz u * vz u"

definition normalise :: "Vector3 \<Rightarrow> Vector3" where
  "normalise u = (let l = magnitude u in if l > 0 then Vector3_scale u (1 / l) else u)"

record Location =
  position :: Vector3
  orientation :: real

record Kinematic = Location +
  velocity :: Vector3
  rotation :: real

record SteeringOutput =
  linear :: Vector3
  angular :: real

section \<open>The steering pipeline (steerpipe.h, steerpipe.cpp)\<close>

record Goal =
  position :: Vector3
  positionSet :: bool
  orientation :: real
  orientationSet :: bool
  velocity :: Vector3
  velocitySet :: bool
  rotation :: real
  rotationSet :: bool

datatype error = AssertionFailed | WildPointer

text \<open>\<open>Goal::clear\<close> and the constructor \<open>Goal::Goal\<close>. The constructor leaves the two
  scalar channels uninitialised: their contents are the parameters \<open>ori\<close> and \<open>rot\<close>.\<close>

definition clear :: "Goal \<Rightarrow> Goal" where
  "clear g = g\<lparr>positionSet := False, orientationSet := False,
               velocitySet := False, rotationSet := False\<rparr>"

definition Goal_new :: "real \<Rightarrow> real \<Rightarrow> Goal" where
  "Goal_new ori rot =
     clear \<lparr>position = Vector3_zero, positionSet = False, orientation = ori, orientationSet = False,
            velocity = Vector3_zero, velocitySet = False, rotation = rot, rotationSet = False\<rparr>"

definition canMergeGoals :: "Goal \<Rightarrow> Goal \<Rightarrow> bool" where
  "canMergeGoals this goal \<longleftrightarrow>
     \<not> (positionSet this \<and> positionSet goal \<or>
        orientationSet this \<and> orientationSet goal \<or>
        velocitySet this \<and> velocitySet goal \<or>
        rotationSet this \<and> rotationSet goal)"

text \<open>\<open>Goal::updateGoal\<close>; the failing \<open>assert\<close> is the error \<open>AssertionFailed\<close>.\<close>

definition updateGoal :: "Goal \<Rightarrow> Goal \<Rightarrow> error + Goal" where
  "updateGoal this goal =
     (if \<not> canMergeGoals this goal then Inl AssertionFailed
      else
        let g1 = (if positionSet goal
                  then this\<lparr>position := position goal, positionSet := True\<rparr> else this);
            g2 = (if orientationSet goal
                  then g1\<lparr>orientation := orientation goal, orientationSet := True\<rparr> else g1);
            g3 = (if velocitySet goal
                  then g2\<lparr>velocity := velocity goal, velocitySet := True\<rparr> else g2);
            g4 = (if rotationSet goal
                  then g3\<lparr>rotation := rotation goal, rotationSet := True\<rparr> else g3)
        in Inr g4)"

text \<open>
  \<open>Path\<close>: subclasses extend the record. \<open>character\<close> holds the object the pointer
  refers to. The virtual \<open>getMaxPriority\<close> is a parameter of the pipeline;
  \<open>Path_getMaxPriority\<close> is the implementation of the base class.
\<close>

record Path =
  character :: Kinematic
  goal :: Goal

definition Path_getMaxPriority :: "'e Path_scheme \<Rightarrow> real" where
  "Path_getMaxPriority p =
     magnitude (Vector3_sub (Location.position (Path.character p)) (position (goal p)))"

text \<open>
  The components. A targeter is given by the goal its \<open>getGoal\<close> returns, a
  decomposer by its \<open>decomposeGoal\<close>, the fallback behaviour by its \<open>getSteering\<close>
  (which writes into the output it is handed). A constraint object is an extension of the
  record \<open>Constraint\<close>; \<open>willViolate\<close> may change the object (it returns the new one),
  \<open>suggest\<close> only reads it.
\<close>

record Targeter =
  getGoal :: Goal

record Decomposer =
  decomposeGoal :: "Goal \<Rightarrow> Goal"

type_synonym SteeringBehaviour = "SteeringOutput \<Rightarrow> SteeringOutput"

record Constraint =
  suggestionUsed :: bool

record ('c, 'e) Constraint_class =
  willViolate :: "'c Constraint_scheme \<Rightarrow> 'e Path_scheme \<Rightarrow> real \<Rightarrow> real \<times> 'c Constraint_scheme"
  suggest :: "'c Constraint_scheme \<Rightarrow> 'e Path_scheme \<Rightarrow> Goal"

record 'e Actuator =
  createPathObject :: "'e Path_scheme"
  getPath :: "'e Path_scheme \<Rightarrow> Goal \<Rightarrow> 'e Path_scheme"
  getSteering :: "SteeringOutput \<Rightarrow> 'e Path_scheme \<Rightarrow> SteeringOutput"

record ('c, 'e) SteeringPipe =
  character :: Kinematic
  actuator :: "'e Actuator"
  targeters :: "Targeter list"
  decomposers :: "Decomposer list"
  constraints :: "'c Constraint_scheme list"
  constraintSteps :: nat
  fallback :: "SteeringBehaviour option"
  path :: "'e Path_scheme option"

text \<open>The calls on the actuator, a constraint's \<open>suggest\<close> and the fallback that one
  run of \<open>SteeringPipe::getSteering\<close> makes, in order.\<close>

datatype call = GetPath Goal | Suggest nat | ActuatorGetSteering | FallbackGetSteering

record ('c, 'e) outcome =
  pipe_after :: "('c, 'e) SteeringPipe"
  output_after :: SteeringOutput
  calls :: "call list"

text \<open>The loop over the targeters.\<close>

fun targeters_loop :: "Goal \<Rightarrow> Targeter list \<Rightarrow> error + Goal" where
  "targeters_loop g [] = Inr g"
| "targeters_loop g (t # ts) =
     (let targeterResult = getGoal t
      in if canMergeGoals g targeterResult
         then (case updateGoal g targeterResult of
                 Inl e \<Rightarrow> Inl e
               | Inr g' \<Rightarrow> targeters_loop g' ts)
         else targeters_loop g ts)"

text \<open>The loop over the decomposers.\<close>

fun decomposers_loop :: "Goal \<Rightarrow> Decomposer list \<Rightarrow> Goal" where
  "decomposers_loop g [] = g"
| "decomposers_loop g (d # ds) = decomposers_loop (decomposeGoal d g) ds"

text \<open>
  The loop over the constraints inside one negotiation step. \<open>first\<close> is the test
  \<open>i == 0\<close>, \<open>k\<close> the position of the constraint \<open>ci\<close> points to. The pointer
  \<open>violatingConstraint\<close> is a position in the list, \<open>None\<close> while it is uninitialised.
\<close>

fun constraints_loop ::
  "('c, 'e) Constraint_class \<Rightarrow> bool \<Rightarrow> 'e Path_scheme \<Rightarrow> 'c Constraint_scheme list \<Rightarrow> nat \<Rightarrow>
   real \<Rightarrow> nat option \<Rightarrow> 'c Constraint_scheme list \<times> real \<times> nat option" where
  "constraints_loop cc first p [] k shortestViolation violatingConstraint =
     ([], shortestViolation, violatingConstraint)"
| "constraints_loop cc first p (c # cs) k shortestViolation violatingConstraint =
     (let c1 = (if first then c\<lparr>suggestionUsed := False\<rparr> else c);
          (currentViolation, c2) = willViolate cc c1 p shortestViolation;
          (shortest', violating') =
             (if currentViolation > 0 \<and> currentViolation < shortestViolation
              then (currentViolation, Some k)
              else (shortestViolation, violatingConstraint));
          (cs', shortest'', violating'') = constraints_loop cc first p cs (Suc k) shortest' violating'
      in (c2 # cs', shortest'', violating''))"

text \<open>
  The negotiation loop \<open>for (unsigned i = 0; i < constraintSteps; i++)\<close> and the
  fallback after it. \<open>i\<close> stays below \<open>constraintSteps\<close>, so the increment cannot wrap
  and \<open>nat\<close> models the counter. \<open>p\<close> is the object \<open>path\<close> points to.
\<close>

function negotiate ::
  "('e Path_scheme \<Rightarrow> real) \<Rightarrow> ('c, 'e) Constraint_class \<Rightarrow> ('c, 'e) SteeringPipe \<Rightarrow>
   'e Path_scheme \<Rightarrow> Goal \<Rightarrow> SteeringOutput \<Rightarrow> nat \<Rightarrow> nat option \<Rightarrow> call list \<Rightarrow>
   error + ('c, 'e) outcome" where
  "negotiate getMaxPriority cc pipe p g output i violatingConstraint tr =
     (if i < constraintSteps pipe then
        (let p1 = getPath (actuator pipe) p g;
             maxViolation = getMaxPriority p1;
             (cs, shortestViolation, violating) =
                constraints_loop cc (i = 0) p1 (constraints pipe) 0 maxViolation violatingConstraint;
             pipe1 = pipe\<lparr>constraints := cs, path := Some p1\<rparr>
         in if shortestViolation < maxViolation then
              (case violating of
                 None \<Rightarrow> Inl WildPointer
               | Some k \<Rightarrow>
                   (let g' = suggest cc (cs ! k) p1;
                        pipe2 = pipe1\<lparr>constraints := cs[k := (cs ! k)\<lparr>suggestionUsed := True\<rparr>]\<rparr>
                    in negotiate getMaxPriority cc pipe2 p1 g' output (Suc i) violating
                         (tr @ [GetPath g, Suggest k])))
            else
              Inr \<lparr>pipe_after = pipe1,
                   output_after = getSteering (actuator pipe) output p1,
                   calls = tr @ [GetPath g, ActuatorGetSteering]\<rparr>)
      else
        (case fallback pipe of
           Some fb \<Rightarrow>
             Inr \<lparr>pipe_after = pipe\<lparr>path := Some p\<rparr>, output_after = fb output,
                  calls = tr @ [FallbackGetSteering]\<rparr>
         | None \<Rightarrow>
             Inr \<lparr>pipe_after = pipe\<lparr>path := Some p\<rparr>, output_after = output, calls = tr\<rparr>))"
  by pat_completeness auto
termination
  by (relation "measure (\<lambda>(gm, cc, pipe, p, g, output, i, v, tr). constraintSteps pipe - i)") auto

text \<open>\<open>SteeringPipe::getSteering\<close>. \<open>ori\<close> and \<open>rot\<close> are the uninitialised scalars of
  the local \<open>Goal goal\<close>; the variable \<open>goal\<close> of the source is \<open>g\<close> here.\<close>

definition SteeringPipe_getSteering ::
  "('e Path_scheme \<Rightarrow> real) \<Rightarrow> ('c, 'e) Constraint_class \<Rightarrow> real \<Rightarrow> real \<Rightarrow>
   ('c, 'e) SteeringPipe \<Rightarrow> SteeringOutput \<Rightarrow> error + ('c, 'e) outcome" where
  "SteeringPipe_getSteering getMaxPriority cc ori rot pipe output =
     (case targeters_loop (Goal_new ori rot) (targeters pipe) of
        Inl e \<Rightarrow> Inl e
      | Inr g1 \<Rightarrow>
          (let g2 = decomposers_loop g1 (decomposers pipe);
               p = (case path pipe of
                      None \<Rightarrow> createPathObject (actuator pipe)
                    | Some p \<Rightarrow> p)
           in negotiate getMaxPriority cc (pipe\<lparr>path := Some p\<rparr>) p g2 output 0 None []))"

text \<open>
  \<open>SteeringOutput::clear\<close>, \<open>Seek::getSteering\<close> (steering.cpp) and the
  \<open>BasicActuator\<close> built on it. \<open>chr\<close> is \<open>pipe->character\<close>; \<open>fresh\<close> is the
  content of the \<open>Path\<close> that \<open>createPathObject\<close> allocates (\<open>new Path\<close> initialises
  only the flags of its goal).
\<close>

definition SteeringOutput_clear :: "SteeringOutput \<Rightarrow> SteeringOutput" where
  "SteeringOutput_clear output = output\<lparr>linear := Vector3_zero, angular := 0\<rparr>"

definition Seek_getSteering ::
  "Kinematic \<Rightarrow> Vector3 \<Rightarrow> real \<Rightarrow> SteeringOutput \<Rightarrow> SteeringOutput" where
  "Seek_getSteering chr target maxAcceleration output =
     (let out1 = output\<lparr>linear := target\<rparr>;
          out2 = out1\<lparr>linear := Vector3_sub (linear out1) (Location.position chr)\<rparr>
      in if squareMagnitude (linear out2) > 0
         then (let out3 = out2\<lparr>linear := normalise (linear out2)\<rparr>
               in out3\<lparr>linear := Vector3_scale (linear out3) maxAcceleration\<rparr>)
         else out2)"

definition BasicActuator :: "Kinematic \<Rightarrow> real \<Rightarrow> Path \<Rightarrow> unit Actuator" where
  "BasicActuator chr maxAcceleration fresh =
     \<lparr>createPathObject = fresh,
      getPath = (\<lambda>p g. p\<lparr>Path.character := chr, goal := g\<rparr>),
      getSteering = (\<lambda>output p.
         if positionSet (goal p)
         then Seek_getSteering chr (position (goal p)) maxAcceleration output
         else SteeringOutput_clear output)\<rparr>"

section \<open>Notions used to state the properties\<close>

text \<open>The four channels of a goal: whether a channel is set, and the value it carries.\<close>

datatype channel = PositionChannel | OrientationChannel | VelocityChannel | RotationChannel

fun channelSet :: "Goal \<Rightarrow> channel \<Rightarrow> bool" where
  "channelSet g PositionChannel = positionSet g"
| "channelSet g OrientationChannel = orientationSet g"
| "channelSet g VelocityChannel = velocitySet g"
| "channelSet g RotationChannel = rotationSet g"

fun channelValue :: "Goal \<Rightarrow> channel \<Rightarrow> Vector3 + real" where
  "channelValue g PositionChannel = Inl (position g)"
| "channelValue g OrientationChannel = Inr (orientation g)"
| "channelValue g VelocityChannel = Inl (velocity g)"
| "channelValue g RotationChannel = Inr (rotation g)"

text \<open>
  The abstract view of a list in the store, and the insertion the specification
  describes: by descending priority, after the entries of equal priority.
\<close>

definition descending :: "real list \<Rightarrow> bool" where
  "descending ps = sorted_wrt (\<lambda>x y. x \<ge> y) ps"

fun insert_by_priority :: "(addr \<Rightarrow> real) \<Rightarrow> addr \<Rightarrow> addr list \<Rightarrow> addr list" where
  "insert_by_priority pr new [] = [new]"
| "insert_by_priority pr new (a # as) =
     (if pr new > pr a then new # a # as else a # insert_by_priority pr new as)"

text \<open>What a slot holds; the slot and the successor that the loop of \<open>scheduleAction\<close>
  stops at, as a function of the list it walks; the two assignments after the loop.\<close>

definition deref :: "'z ActionManager \<Rightarrow> slot \<Rightarrow> addr option" where
  "deref m s =
     (case s of
        QueueHead \<Rightarrow> actionQueue m
      | ActiveHead \<Rightarrow> active m
      | NextOf a \<Rightarrow> next (heap m a))"

fun find_slot :: "(addr \<Rightarrow> real) \<Rightarrow> addr \<Rightarrow> slot \<Rightarrow> addr list \<Rightarrow> slot \<times> addr option" where
  "find_slot pr new prev [] = (prev, None)"
| "find_slot pr new prev (a # as) =
     (if pr new > pr a then (prev, Some a) else find_slot pr new (NextOf a) as)"

definition link :: "'z ActionManager \<Rightarrow> addr \<Rightarrow> slot \<times> addr option \<Rightarrow> 'z ActionManager" where
  "link m new r = set_next new (snd r) (store (fst r) (Some new) m)"

text \<open>
  Concrete actions for the scenarios: plain \<open>Action\<close> objects at the addresses 0, 1
  and 2 with given priorities, and three classes of actions that never complete and do
  nothing when they act. They differ in \<open>canInterrupt\<close> and \<open>canDoBoth\<close>.
\<close>

definition three_actions :: "real \<Rightarrow> real \<Rightarrow> real \<Rightarrow> addr \<Rightarrow> Action" where
  "three_actions pa pb pc =
     (\<lambda>_. \<lparr>priority = 0, next = None\<rparr>)
       (0 := \<lparr>priority = pa, next = None\<rparr>,
        1 := \<lparr>priority = pb, next = None\<rparr>,
        2 := \<lparr>priority = pc, next = None\<rparr>)"

definition compatible_class :: "unit Action_class" where
  "compatible_class =
     \<lparr>canInterrupt = (\<lambda>this. False), canDoBoth = (\<lambda>this other. True),
      isComplete = (\<lambda>this. False), act = (\<lambda>this. this)\<rparr>"

definition interrupting_class :: "unit Action_class" where
  "interrupting_class =
     \<lparr>canInterrupt = (\<lambda>this. True), canDoBoth = (\<lambda>this other. False),
      isComplete = (\<lambda>this. False), act = (\<lambda>this. this)\<rparr>"

definition exclusive_class :: "unit Action_class" where
  "exclusive_class =
     \<lparr>canInterrupt = (\<lambda>this. False), canDoBoth = (\<lambda>this other. False),
      isComplete = (\<lambda>this. False), act = (\<lambda>this. this)\<rparr>"

text \<open>
  Every negotiation step starts with one call of \<open>actuator->getPath\<close>, so the number
  of steps a run made is the number of \<open>GetPath\<close> entries among its calls.
\<close>

fun isGetPath :: "call \<Rightarrow> bool" where
  "isGetPath (GetPath g) = True"
| "isGetPath (Suggest k) = False"
| "isGetPath ActuatorGetSteering = False"
| "isGetPath FallbackGetSteering = False"

definition iterations :: "call list \<Rightarrow> nat" where
  "iterations tr = length (filter isGetPath tr)"

text \<open>The constraint as \<open>willViolate\<close> sees it in a negotiation step: with its flag
  cleared in the first step.\<close>

definition flag_cleared :: "bool \<Rightarrow> 'c Constraint_scheme \<Rightarrow> 'c Constraint_scheme" where
  "flag_cleared first c = (if first then c\<lparr>suggestionUsed := False\<rparr> else c)"

text \<open>
  A concrete pipeline for the scenarios: a character at the origin, one targeter with
  the fixed goal position (1, 0, 0), the basic actuator, a fallback that clears the
  output, three negotiation steps, and one constraint of the class \<open>stubborn_class\<close>:
  it reports a violation at half of \<open>getMaxPriority\<close> of the path, whatever the path,
  and suggests the goal the path already has.
\<close>

definition example_character :: Kinematic where
  "example_character =
     \<lparr>Location.position = Vector3_zero, Location.orientation = 0,
      Kinematic.velocity = Vector3_zero, Kinematic.rotation = 0\<rparr>"

definition example_goal :: Goal where
  "example_goal = (Goal_new 0 0)\<lparr>position := \<lparr>vx = 1, vy = 0, vz = 0\<rparr>, positionSet := True\<rparr>"

definition stubborn_class :: "(unit, unit) Constraint_class" where
  "stubborn_class =
     \<lparr>willViolate = (\<lambda>c p s. (Path_getMaxPriority p / 2, c)),
      suggest = (\<lambda>c p. goal p)\<rparr>"

definition example_pipe :: "(unit, unit) SteeringPipe" where
  "example_pipe =
     \<lparr>SteeringPipe.character = example_character,
      actuator = BasicActuator example_character 1
                   \<lparr>Path.character = example_character, goal = Goal_new 0 0\<rparr>,
      targeters = [\<lparr>getGoal = example_goal\<rparr>],
      decomposers = [],
      constraints = [\<lparr>suggestionUsed = False\<rparr>],
      constraintSteps = 3,
      fallback = Some SteeringOutput_clear,
      path = None\<rparr>"

definition example_output :: SteeringOutput where
  "example_output = \<lparr>linear = \<lparr>vx = 7, vy = 8, vz = 9\<rparr>, angular = 5\<rparr>"

section \<open>Goals\<close>

lemma all_channels:
  "(\<forall>c. P c) \<longleftrightarrow>
     P PositionChannel \<and> P OrientationChannel \<and> P VelocityChannel \<and> P RotationChannel"
  by (metis channel.exhaust)

lemma ex_channels:
  "(\<exists>c. P c) \<longleftrightarrow>
     P PositionChannel \<or> P OrientationChannel \<or> P VelocityChannel \<or> P RotationChannel"
  by (metis channel.exhaust)

lemma canMergeGoals_iff:
  "canMergeGoals A B \<longleftrightarrow> (\<forall>c. \<not> (channelSet A c \<and> channelSet B c))"
  unfolding all_channels by (simp add: canMergeGoals_def)

lemma updateGoal_channels:
  assumes "canMergeGoals A B"
  shows "\<exists>A'. updateGoal A B = Inr A' \<and>
            (\<forall>c. channelSet A' c = (channelSet A c \<or> channelSet B c)) \<and>
            (\<forall>c. channelSet A c \<longrightarrow> channelValue A' c = channelValue A c) \<and>
            (\<forall>c. channelSet B c \<longrightarrow> channelValue A' c = channelValue B c)"
  using assms unfolding all_channels
  by (simp add: updateGoal_def canMergeGoals_def Let_def)

text \<open>
  C6. Merging goals is a union of disjoint channels. When no channel is set in both
  \<open>A\<close> and \<open>B\<close>, \<open>A.canMergeGoals(B)\<close> is true and \<open>A.updateGoal(B)\<close> leaves in \<open>A\<close>
  exactly the channels set in \<open>A\<close> or in \<open>B\<close>, each with the value of the goal that set
  it. When some channel is set in both, \<open>canMergeGoals\<close> is false, and the targeter loop
  of the pipeline skips a targeter that returns \<open>B\<close>: the accumulated goal \<open>A\<close> goes on
  unchanged to the remaining targeters.
\<close>

theorem Goal_merge_channel_disjoint:
  "((\<forall>c. \<not> (channelSet A c \<and> channelSet B c)) \<longrightarrow>
      canMergeGoals A B \<and>
      (\<exists>A'. updateGoal A B = Inr A' \<and>
            (\<forall>c. channelSet A' c = (channelSet A c \<or> channelSet B c)) \<and>
            (\<forall>c. channelSet A c \<longrightarrow> channelValue A' c = channelValue A c) \<and>
            (\<forall>c. channelSet B c \<longrightarrow> channelValue A' c = channelValue B c))) \<and>
   ((\<exists>c. channelSet A c \<and> channelSet B c) \<longrightarrow>
      \<not> canMergeGoals A B \<and>
      (\<forall>t ts. getGoal t = B \<longrightarrow> targeters_loop A (t # ts) = targeters_loop A ts))"
proof (intro conjI impI)
  assume "\<forall>c. \<not> (channelSet A c \<and> channelSet B c)"
  then show m: "canMergeGoals A B"
    using canMergeGoals_iff by blast
  show "\<exists>A'. updateGoal A B = Inr A' \<and>
            (\<forall>c. channelSet A' c = (channelSet A c \<or> channelSet B c)) \<and>
            (\<forall>c. channelSet A c \<longrightarrow> channelValue A' c = channelValue A c) \<and>
            (\<forall>c. channelSet B c \<longrightarrow> channelValue A' c = channelValue B c)"
    by (rule updateGoal_channels [OF m])
next
  assume "\<exists>c. channelSet A c \<and> channelSet B c"
  then show n: "\<not> canMergeGoals A B"
    using canMergeGoals_iff by blast
  show "\<forall>t ts. getGoal t = B \<longrightarrow> targeters_loop A (t # ts) = targeters_loop A ts"
    using n by simp
qed

text \<open>The theorem at a goal that sets only its position and a goal that sets only its
  orientation (disjoint), and at the first goal against itself (overlapping).\<close>

theorem Goal_merge_channel_disjoint_witness:
  "canMergeGoals
     ((Goal_new 0 0)\<lparr>position := \<lparr>vx = 1, vy = 2, vz = 3\<rparr>, positionSet := True\<rparr>)
     ((Goal_new 0 0)\<lparr>orientation := 7, orientationSet := True\<rparr>) \<and>
   (\<exists>A'. updateGoal
            ((Goal_new 0 0)\<lparr>position := \<lparr>vx = 1, vy = 2, vz = 3\<rparr>, positionSet := True\<rparr>)
            ((Goal_new 0 0)\<lparr>orientation := 7, orientationSet := True\<rparr>) = Inr A' \<and>
          positionSet A' \<and> orientationSet A' \<and> \<not> velocitySet A' \<and> \<not> rotationSet A' \<and>
          position A' = \<lparr>vx = 1, vy = 2, vz = 3\<rparr> \<and> orientation A' = 7) \<and>
   \<not> canMergeGoals
     ((Goal_new 0 0)\<lparr>position := \<lparr>vx = 1, vy = 2, vz = 3\<rparr>, positionSet := True\<rparr>)
     ((Goal_new 0 0)\<lparr>position := \<lparr>vx = 1, vy = 2, vz = 3\<rparr>, positionSet := True\<rparr>)"
  using Goal_merge_channel_disjoint
          [of "(Goal_new 0 0)\<lparr>position := \<lparr>vx = 1, vy = 2, vz = 3\<rparr>, positionSet := True\<rparr>"
              "(Goal_new 0 0)\<lparr>orientation := 7, orientationSet := True\<rparr>"]
        Goal_merge_channel_disjoint
          [of "(Goal_new 0 0)\<lparr>position := \<lparr>vx = 1, vy = 2, vz = 3\<rparr>, positionSet := True\<rparr>"
              "(Goal_new 0 0)\<lparr>position := \<lparr>vx = 1, vy = 2, vz = 3\<rparr>, positionSet := True\<rparr>"]
  unfolding all_channels ex_channels
  by (simp add: Goal_new_def clear_def)

section \<open>Lists in the store\<close>

lemma chain_update:
  "a \<notin> set as \<Longrightarrow> chain (h(a := v)) p as = chain h p as"
  by (induction as arbitrary: p) auto

lemma chain_unique: "chain h p as \<Longrightarrow> chain h p bs \<Longrightarrow> as = bs"
proof (induction as arbitrary: p bs)
  case Nil
  then show ?case by (cases bs) auto
next
  case (Cons a as)
  then show ?case by (cases bs) auto
qed

lemma chain_suffix: "chain h p (xs @ ys) \<Longrightarrow> \<exists>q. chain h q ys"
  by (induction xs arbitrary: p) auto

text \<open>A list that ends in \<open>NULL\<close> does not pass through its head again.\<close>

lemma chain_head_notin:
  assumes "chain h (Some a) (a # as)"
  shows "a \<notin> set as"
proof
  assume "a \<in> set as"
  then obtain xs ys where s: "as = xs @ a # ys"
    by (meson split_list)
  from assms have c: "chain h (next (h a)) as"
    by simp
  with s have "chain h (next (h a)) (xs @ a # ys)"
    by simp
  then obtain q where q: "chain h q (a # ys)"
    using chain_suffix by blast
  then have "q = Some a"
    by simp
  with q have "chain h (next (h a)) ys"
    by simp
  with c have "as = ys"
    by (rule chain_unique)
  with s show False
    by simp
qed

section \<open>scheduleAction\<close>

lemma scheduleAction_loop_find_slot:
  "chain (heap m) nxt as \<Longrightarrow>
   scheduleAction_loop m new prev nxt = Some (find_slot (\<lambda>a. priority (heap m a)) new prev as)"
proof (induction as arbitrary: prev nxt)
  case Nil
  then show ?case
    by (subst scheduleAction_loop.simps) simp
next
  case (Cons a as)
  from Cons.prems have n: "nxt = Some a" and c: "chain (heap m) (next (heap m a)) as"
    by simp_all
  show ?case
    by (subst scheduleAction_loop.simps) (simp add: n Cons.IH [OF c])
qed

lemma scheduleAction_link:
  "chain (heap m) (actionQueue m) as \<Longrightarrow>
   scheduleAction m new =
     Some (link m new (find_slot (\<lambda>a. priority (heap m a)) new QueueHead as))"
  by (simp add: scheduleAction_def scheduleAction_loop_find_slot link_def split: prod.splits)

lemma find_slot_fst:
  "fst (find_slot pr new prev as) = prev \<or>
   (\<exists>y \<in> set as. fst (find_slot pr new prev as) = NextOf y)"
  by (induction as arbitrary: prev) auto

lemma link_priority:
  "fst r \<noteq> ActiveHead \<Longrightarrow> priority (heap (link m new r) a) = priority (heap m a)"
  by (cases "fst r") (auto simp: link_def store_def set_next_def)

lemma link_frame:
  "fst r \<noteq> ActiveHead \<Longrightarrow>
   active (link m new r) = active m \<and> activePriority (link m new r) = activePriority m \<and>
   allocated (link m new r) = allocated m"
  by (cases "fst r") (auto simp: link_def store_def set_next_def)

lemma link_deref_QueueHead:
  "fst r \<noteq> QueueHead \<Longrightarrow> deref (link m new r) QueueHead = deref m QueueHead"
  by (cases "fst r") (auto simp: link_def store_def set_next_def deref_def)

lemma link_deref_NextOf:
  "fst r \<noteq> NextOf x \<Longrightarrow> x \<noteq> new \<Longrightarrow> deref (link m new r) (NextOf x) = deref m (NextOf x)"
  by (cases "fst r") (auto simp: link_def store_def set_next_def deref_def)

lemma link_deref_same:
  "prev = QueueHead \<or> (\<exists>x. prev = NextOf x \<and> x \<noteq> new) \<Longrightarrow>
   deref (link m new (prev, q)) prev = Some new"
  by (auto simp: link_def store_def set_next_def deref_def)

lemma link_next_new: "next (heap (link m new (prev, q)) new) = q"
  by (auto simp: link_def store_def set_next_def)

lemma link_chain:
  assumes "chain (heap m) p bs" "new \<notin> set bs"
    "prev = QueueHead \<or> (\<exists>x. prev = NextOf x \<and> x \<notin> set bs)"
  shows "chain (heap (link m new (prev, q))) p bs"
  using assms by (auto simp: link_def store_def set_next_def chain_update)

text \<open>
  The loop invariant of \<open>scheduleAction\<close>, read backwards: when the walk stands at the
  slot \<open>prev\<close> in front of the rest \<open>as\<close> of the queue, then after the two final
  assignments that slot heads the rest with the new action inserted.
\<close>

lemma link_in:
  assumes "chain (heap m) p as" "deref m prev = p" "new \<notin> set as"
    "prev = QueueHead \<or> (\<exists>x. prev = NextOf x \<and> x \<notin> set as \<and> x \<noteq> new)"
  shows "chain (heap (link m new (find_slot pr new prev as)))
           (deref (link m new (find_slot pr new prev as)) prev) (insert_by_priority pr new as)"
  using assms
proof (induction as arbitrary: p prev)
  case Nil
  have "deref (link m new (prev, None)) prev = Some new"
    using Nil.prems(4) by (intro link_deref_same) auto
  then show ?case
    by (simp add: link_next_new)
next
  case (Cons a as)
  from Cons.prems have p: "p = Some a" and c: "chain (heap m) (next (heap m a)) as"
    and na: "new \<noteq> a" and nas: "new \<notin> set as"
    by auto
  from Cons.prems(1) p have "chain (heap m) (Some a) (a # as)"
    by simp
  then have a_notin: "a \<notin> set as"
    by (rule chain_head_notin)
  show ?case
  proof (cases "pr new > pr a")
    case True
    have d: "deref (link m new (prev, Some a)) prev = Some new"
      using Cons.prems(4) by (intro link_deref_same) auto
    have "chain (heap (link m new (prev, Some a))) (Some a) (a # as)"
      using Cons.prems p by (intro link_chain) auto
    with True d show ?thesis
      by (simp add: link_next_new)
  next
    case False
    let ?r = "find_slot pr new (NextOf a) as"
    have ih: "chain (heap (link m new ?r)) (deref (link m new ?r) (NextOf a))
                (insert_by_priority pr new as)"
      using c nas a_notin na
      by (intro Cons.IH [where p = "next (heap m a)"]) (auto simp: deref_def)
    have fs: "fst ?r = NextOf a \<or> (\<exists>y \<in> set as. fst ?r = NextOf y)"
      using find_slot_fst [of pr new "NextOf a" as] by simp
    have "deref (link m new ?r) prev = deref m prev"
    proof (cases "prev = QueueHead")
      case True
      with fs show ?thesis
        by (auto intro: link_deref_QueueHead)
    next
      case False
      with Cons.prems(4) obtain x where x: "prev = NextOf x" "x \<notin> set (a # as)" "x \<noteq> new"
        by auto
      with fs have "fst ?r \<noteq> NextOf x"
        by auto
      with x show ?thesis
        by (simp add: link_deref_NextOf)
    qed
    with Cons.prems(2) p have d: "deref (link m new ?r) prev = Some a"
      by simp
    from ih have "chain (heap (link m new ?r)) (next (heap (link m new ?r) a))
                    (insert_by_priority pr new as)"
      by (simp add: deref_def)
    with d False show ?thesis
      by simp
  qed
qed

lemma set_insert_by_priority: "set (insert_by_priority pr new as) = insert new (set as)"
  by (induction as) auto

lemma descending_insert:
  "descending (map pr as) \<Longrightarrow> descending (map pr (insert_by_priority pr new as))"
  by (induction as) (auto simp: descending_def set_insert_by_priority)

lemma insert_stable:
  "descending (map pr as) \<Longrightarrow>
   insert_by_priority pr new as =
     filter (\<lambda>a. pr a \<ge> pr new) as @ new # filter (\<lambda>a. pr a < pr new) as"
proof (induction as)
  case Nil
  then show ?case by simp
next
  case (Cons a as)
  show ?case
  proof (cases "pr new > pr a")
    case True
    with Cons.prems have "\<forall>b \<in> set as. pr b < pr new"
      by (auto simp: descending_def)
    then have "filter (\<lambda>a. pr a \<ge> pr new) as = []" "filter (\<lambda>a. pr a < pr new) as = as"
      by (auto simp: filter_empty_conv)
    with True show ?thesis
      by simp
  next
    case False
    with Cons show ?thesis
      by (auto simp: descending_def)
  qed
qed

text \<open>
  C7. \<open>scheduleAction\<close> keeps the queue ordered. If \<open>actionQueue\<close> heads the list
  \<open>as\<close> and the new action is not in it, the call returns, and \<open>actionQueue\<close> then
  heads \<open>as\<close> with the new action inserted in front of the first entry of strictly lower
  priority; no priority changes. If \<open>as\<close> was in descending order of priority, so is the
  new queue, and the new action stands after every old entry of greater or equal priority
  and before every old entry of lower priority, the old entries keeping their order.
\<close>

theorem scheduleAction_keeps_queue_sorted:
  assumes "chain (heap m) (actionQueue m) as" and "newAction \<notin> set as"
  shows "\<exists>m'. scheduleAction m newAction = Some m' \<and>
           chain (heap m') (actionQueue m')
             (insert_by_priority (\<lambda>a. priority (heap m a)) newAction as) \<and>
           (\<forall>a. priority (heap m' a) = priority (heap m a)) \<and>
           active m' = active m \<and> activePriority m' = activePriority m \<and>
           (descending (map (\<lambda>a. priority (heap m a)) as) \<longrightarrow>
              descending (map (\<lambda>a. priority (heap m' a))
                (insert_by_priority (\<lambda>a. priority (heap m a)) newAction as)) \<and>
              insert_by_priority (\<lambda>a. priority (heap m a)) newAction as =
                filter (\<lambda>a. priority (heap m a) \<ge> priority (heap m newAction)) as @
                newAction #
                filter (\<lambda>a. priority (heap m a) < priority (heap m newAction)) as)"
proof -
  let ?pr = "\<lambda>a. priority (heap m a)"
  let ?r = "find_slot ?pr newAction QueueHead as"
  let ?m' = "link m newAction ?r"
  have s: "scheduleAction m newAction = Some ?m'"
    using assms(1) by (rule scheduleAction_link)
  have na: "fst ?r \<noteq> ActiveHead"
    using find_slot_fst [of ?pr newAction QueueHead as] by auto
  have "chain (heap ?m') (deref ?m' QueueHead) (insert_by_priority ?pr newAction as)"
    using assms by (intro link_in [where p = "actionQueue m"]) (auto simp: deref_def)
  then have c: "chain (heap ?m') (actionQueue ?m') (insert_by_priority ?pr newAction as)"
    by (simp add: deref_def)
  have p: "\<forall>a. priority (heap ?m' a) = ?pr a"
    using na by (simp add: link_priority)
  have f: "active ?m' = active m \<and> activePriority ?m' = activePriority m"
    using na link_frame by blast
  have d: "descending (map (\<lambda>a. priority (heap ?m' a)) (insert_by_priority ?pr newAction as))"
    if "descending (map ?pr as)"
    using that p by (simp add: descending_insert)
  show ?thesis
    using s c p f d insert_stable [of ?pr as newAction] by blast
qed

text \<open>
  The scenario of the specification: actions of priority 5, 10 and 3 (at the addresses
  0, 1 and 2) are scheduled in that order into an empty manager. The theorem, used once
  for each call, gives the queue 1, 0, 2: the priorities 10, 5, 3.
\<close>

theorem scheduleAction_keeps_queue_sorted_witness:
  "\<exists>m1 m2 m3.
     scheduleAction (ActionManager_new (three_actions 5 10 3) {0, 1, 2}) 0 = Some m1 \<and>
     scheduleAction m1 1 = Some m2 \<and>
     scheduleAction m2 2 = Some m3 \<and>
     chain (heap m3) (actionQueue m3) [1, 0, 2] \<and>
     map (\<lambda>a. priority (heap m3 a)) [1, 0, 2] = [10, 5, 3] \<and>
     descending (map (\<lambda>a. priority (heap m3 a)) [1, 0, 2])"
proof -
  let ?m0 = "ActionManager_new (three_actions 5 10 3) {0, 1, 2} :: unit ActionManager"
  have p0: "priority (heap ?m0 0) = 5" "priority (heap ?m0 1) = 10" "priority (heap ?m0 2) = 3"
    by (simp_all add: ActionManager_new_def three_actions_def)
  have "chain (heap ?m0) (actionQueue ?m0) []"
    by (simp add: ActionManager_new_def)
  from scheduleAction_keeps_queue_sorted [OF this, of 0]
  obtain m1 where m1: "scheduleAction ?m0 0 = Some m1"
      "chain (heap m1) (actionQueue m1) [0]"
      "\<forall>a. priority (heap m1 a) = priority (heap ?m0 a)"
    by auto
  from scheduleAction_keeps_queue_sorted [OF m1(2), of 1]
  obtain m2 where m2: "scheduleAction m1 1 = Some m2"
      "chain (heap m2) (actionQueue m2) (insert_by_priority (\<lambda>a. priority (heap m1 a)) 1 [0])"
      "\<forall>a. priority (heap m2 a) = priority (heap m1 a)"
    by auto
  from m2(2) m1(3) p0 have c2: "chain (heap m2) (actionQueue m2) [1, 0]"
    by simp
  have "(2::nat) \<notin> set [1, 0]"
    by simp
  from scheduleAction_keeps_queue_sorted [OF c2 this]
  obtain m3 where m3: "scheduleAction m2 2 = Some m3"
      "chain (heap m3) (actionQueue m3) (insert_by_priority (\<lambda>a. priority (heap m2 a)) 2 [1, 0])"
      "\<forall>a. priority (heap m3 a) = priority (heap m2 a)"
      "descending (map (\<lambda>a. priority (heap m2 a)) [1, 0]) \<longrightarrow>
         descending (map (\<lambda>a. priority (heap m3 a))
           (insert_by_priority (\<lambda>a. priority (heap m2 a)) 2 [1, 0]))"
    by blast
  have p2: "priority (heap m2 0) = 5" "priority (heap m2 1) = 10" "priority (heap m2 2) = 3"
    using m2(3) m1(3) p0 by simp_all
  have i3: "insert_by_priority (\<lambda>a. priority (heap m2 a)) 2 [1, 0] = [1, 0, 2]"
    using p2 by simp
  have c3: "chain (heap m3) (actionQueue m3) [1, 0, 2]"
    using m3(2) i3 by simp
  have p3: "map (\<lambda>a. priority (heap m3 a)) [1, 0, 2] = [10, 5, 3]"
    using m3(3) p2 by simp
  have "descending (map (\<lambda>a. priority (heap m2 a)) [1, 0])"
    using p2 by (simp add: descending_def)
  with m3(4) i3 have d3: "descending (map (\<lambda>a. priority (heap m3 a)) [1, 0, 2])"
    by simp
  show ?thesis
    by (rule exI [of _ m1], rule exI [of _ m2], rule exI [of _ m3])
       (intro conjI m1(1) m2(1) m3(1) c3 p3 d3)
qed

section \<open>addAllToActive and execute\<close>

lemma scheduleAction_empty_queue:
  fixes m :: "'z ActionManager"
  assumes "actionQueue m = None"
  shows "scheduleAction m b =
           Some (m\<lparr>actionQueue := Some b, heap := (heap m)(b := (heap m b)\<lparr>next := None\<rparr>)\<rparr>)"
  using assms
  by (simp add: scheduleAction_def scheduleAction_loop.simps store_def set_next_def)

lemma addAllToActive_inner_None [simp]: "addAllToActive_inner cls m None n = Some True"
  by (subst addAllToActive_inner.simps) simp

lemma addAllToActive_inner_incompatible:
  "\<not> (canDoBoth cls (heap m ia) (heap m n) \<and> canDoBoth cls (heap m n) (heap m ia)) \<Longrightarrow>
   addAllToActive_inner cls m (Some ia) n = Some False"
  by (subst addAllToActive_inner.simps) auto

text \<open>The inner loop returns only if the active list is empty or its head is
  incompatible with the queued action.\<close>

lemma addAllToActive_inner_Some:
  assumes "addAllToActive_inner cls m inActive n = Some y"
  shows "inActive = None \<or>
         (\<exists>ia. inActive = Some ia \<and>
               (\<not> canDoBoth cls (heap m ia) (heap m n) \<or> \<not> canDoBoth cls (heap m n) (heap m ia)))"
  by (rule addAllToActive_inner.raw_induct
        [where P = "\<lambda>cls m inActive n y. inActive = None \<or>
           (\<exists>ia. inActive = Some ia \<and>
                 (\<not> canDoBoth cls (heap m ia) (heap m n) \<or>
                  \<not> canDoBoth cls (heap m n) (heap m ia)))", OF _ assms])
     (fastforce split: option.splits if_splits)

lemma addAllToActive_inner_diverges:
  "canDoBoth cls (heap m ia) (heap m n) \<Longrightarrow> canDoBoth cls (heap m n) (heap m ia) \<Longrightarrow>
   addAllToActive_inner cls m (Some ia) n = None"
  using addAllToActive_inner_Some [of cls m "Some ia" n]
  by (cases "addAllToActive_inner cls m (Some ia) n") auto

lemma addAllToActive_diverges:
  assumes "active m = Some ia" "actionQueue m = Some n"
    "canDoBoth cls (heap m ia) (heap m n)" "canDoBoth cls (heap m n) (heap m ia)"
  shows "addAllToActive cls m = None"
  unfolding addAllToActive_def
  by (subst addAllToActive_loop.simps) (simp add: assms addAllToActive_inner_diverges)

lemma deleteList_single: "next (heap m a) = None \<Longrightarrow> deleteList m a = Some (delete a m)"
  by (subst deleteList.simps) simp

text \<open>
  C1. The scheduler does not always run to completion. Two actions that are compatible
  with each other in both directions and never interrupt are used as follows: the first
  is scheduled and \<open>execute\<close> makes it active, then the second is scheduled. That state
  is reached (the first line); on it \<open>addAllToActive\<close>, and with it \<open>execute\<close>, never
  returns.
\<close>

theorem execute_never_returns:
  "(scheduleAction (ActionManager_new (three_actions 1 1 0) {0, 1, 2}) 0
      \<bind> execute compatible_class \<bind> (\<lambda>m. scheduleAction m 1)) =
     Some \<lparr>activePriority = 0, actionQueue = Some 1, active = Some 0,
           heap = three_actions 1 1 0, allocated = {0, 1, 2}\<rparr> \<and>
   addAllToActive compatible_class
     \<lparr>activePriority = 0, actionQueue = Some 1, active = Some 0,
      heap = three_actions 1 1 0, allocated = {0, 1, 2}\<rparr> = None \<and>
   execute compatible_class
     \<lparr>activePriority = 0, actionQueue = Some 1, active = Some 0,
      heap = three_actions 1 1 0, allocated = {0, 1, 2}\<rparr> = None"
proof -
  let ?m = "\<lparr>activePriority = 0, actionQueue = Some 1, active = Some 0,
             heap = three_actions 1 1 0, allocated = {0, 1, 2}\<rparr> :: unit ActionManager"
  have r: "(scheduleAction (ActionManager_new (three_actions 1 1 0) {0, 1, 2}) 0
             \<bind> execute compatible_class \<bind> (\<lambda>m. scheduleAction m 1)) = Some ?m"
    unfolding execute_def checkInterrupts_def addAllToActive_def runActive_def
      scheduleAction_def ActionManager_new_def
    by (simp add: checkInterrupts_loop.simps addAllToActive_loop.simps
          scheduleAction_loop.simps runActive_loop.simps compatible_class_def
          three_actions_def store_def set_next_def delete_def fun_upd_twist)
  have d: "addAllToActive compatible_class ?m = None"
    by (rule addAllToActive_diverges [where ia = 0 and n = 1])
       (simp_all add: compatible_class_def)
  have c: "checkInterrupts compatible_class ?m = Some ?m"
    unfolding checkInterrupts_def
    by (simp add: checkInterrupts_loop.simps compatible_class_def three_actions_def)
  show ?thesis
    using r d c by (simp add: execute_def)
qed

text \<open>
  C2. Two actions that are compatible with each other in both directions are scheduled
  into an empty manager. One call of \<open>execute\<close> moves only the first into the active
  set: afterwards the active list is the action 0 alone and the action 1 is still the
  queue.
\<close>

theorem execute_merges_only_first:
  "map_option (\<lambda>m. (active m, next (heap m 0), actionQueue m, next (heap m 1)))
     (scheduleAction (ActionManager_new (three_actions 1 1 0) {0, 1, 2}) 0
        \<bind> (\<lambda>m. scheduleAction m 1) \<bind> execute compatible_class) =
   Some (Some 0, None, Some 1, None)"
  unfolding execute_def checkInterrupts_def addAllToActive_def runActive_def
    scheduleAction_def ActionManager_new_def
  by (simp add: checkInterrupts_loop.simps addAllToActive_loop.simps
        scheduleAction_loop.simps runActive_loop.simps compatible_class_def
        three_actions_def store_def set_next_def delete_def)

text \<open>
  C3. \<open>activePriority\<close> is not the priority of the active set after \<open>execute\<close>. An
  action of priority 5 that cannot interrupt is scheduled into an empty manager;
  \<open>execute\<close> makes it the active list through \<open>addAllToActive\<close>, and \<open>activePriority\<close>
  is still 0.
\<close>

theorem activePriority_stale_after_execute:
  "map_option (\<lambda>m. (active m, next (heap m 0), priority (heap m 0), activePriority m))
     (scheduleAction (ActionManager_new (three_actions 5 0 0) {0, 1, 2}) 0
        \<bind> execute compatible_class) =
   Some (Some 0, None, 5, 0)"
  unfolding execute_def checkInterrupts_def addAllToActive_def runActive_def
    scheduleAction_def ActionManager_new_def
  by (simp add: checkInterrupts_loop.simps addAllToActive_loop.simps
        scheduleAction_loop.simps runActive_loop.simps compatible_class_def
        three_actions_def store_def set_next_def delete_def)

text \<open>
  C4. Priority preemption. The action \<open>a\<close> of priority 5 is the active list, with
  \<open>activePriority\<close> 5, and the action \<open>b\<close> of priority 10 is scheduled into the empty
  queue; \<open>ms\<close> is the manager after that. The next \<open>execute\<close> then does this:
  \<^item> if \<open>b\<close> can interrupt, \<open>checkInterrupts\<close> deletes \<open>a\<close>, makes \<open>b\<close> the whole
    active list, empties the queue and sets \<open>activePriority\<close> to 10 (the manager \<open>mi\<close>);
    \<open>addAllToActive\<close> changes nothing, and \<open>runActive\<close> runs on \<open>mi\<close>. At the end of
    \<open>execute\<close> the action \<open>b\<close> is still the whole active list, unless it reported
    completion after acting and was reclaimed;
  \<^item> if \<open>b\<close> cannot interrupt and the two actions are not compatible in both directions,
    the two scheduling phases change nothing: \<open>a\<close> is the active list that \<open>runActive\<close>
    runs, \<open>b\<close> is still the queue at the end and \<open>activePriority\<close> is 5.
  What the manager looks like after \<open>runActive\<close> is stated for actions whose \<open>act\<close>
  leaves their own \<open>next\<close> field alone.
\<close>

theorem priority_preemption:
  fixes m :: "'z ActionManager"
  assumes ab: "a \<noteq> b"
    and m: "active m = Some a" "actionQueue m = None" "activePriority m = 5"
    and A: "priority (heap m a) = 5" "next (heap m a) = None"
    and B: "priority (heap m b) = 10"
  shows "\<exists>ms. scheduleAction m b = Some ms \<and>
      chain (heap ms) (actionQueue ms) [b] \<and> chain (heap ms) (active ms) [a] \<and>
      activePriority ms = 5 \<and>
      (canInterrupt cls (heap ms b) \<longrightarrow>
         (\<exists>mi. checkInterrupts cls ms = Some mi \<and> addAllToActive cls mi = Some mi \<and>
               execute cls ms = runActive cls mi \<and>
               chain (heap mi) (active mi) [b] \<and> actionQueue mi = None \<and>
               activePriority mi = 10 \<and> allocated mi = allocated m - {a} \<and>
               (next (act cls (heap ms b)) = None \<longrightarrow>
                  (\<exists>mf. execute cls ms = Some mf \<and> activePriority mf = 10 \<and>
                        actionQueue mf = None \<and> a \<notin> allocated mf \<and>
                        (if isComplete cls (act cls (heap ms b))
                         then active mf = None \<and> b \<notin> allocated mf
                         else chain (heap mf) (active mf) [b] \<and>
                              (b \<in> allocated m \<longrightarrow> b \<in> allocated mf)))))) \<and>
      (\<not> canInterrupt cls (heap ms b) \<and>
       \<not> (canDoBoth cls (heap ms a) (heap ms b) \<and> canDoBoth cls (heap ms b) (heap ms a)) \<longrightarrow>
         checkInterrupts cls ms = Some ms \<and> addAllToActive cls ms = Some ms \<and>
         execute cls ms = runActive cls ms \<and>
         (next (act cls (heap ms a)) = None \<longrightarrow>
            (\<exists>mf. execute cls ms = Some mf \<and> chain (heap mf) (actionQueue mf) [b] \<and>
                  activePriority mf = 5 \<and>
                  (if isComplete cls (act cls (heap ms a))
                   then active mf = None \<and> a \<notin> allocated mf
                   else chain (heap mf) (active mf) [a] \<and>
                        (a \<in> allocated m \<longrightarrow> a \<in> allocated mf)))))"
proof -
  let ?ms = "m\<lparr>actionQueue := Some b, heap := (heap m)(b := (heap m b)\<lparr>next := None\<rparr>)\<rparr>"
  have s: "scheduleAction m b = Some ?ms"
    using m(2) by (rule scheduleAction_empty_queue)
  have q: "chain (heap ?ms) (actionQueue ?ms) [b]"
    by simp
  have ac: "chain (heap ?ms) (active ?ms) [a]"
    using ab m A by simp
  have ap: "activePriority ?ms = 5"
    using m by simp
  have int: "\<exists>mi. checkInterrupts cls ?ms = Some mi \<and> addAllToActive cls mi = Some mi \<and>
               execute cls ?ms = runActive cls mi \<and>
               chain (heap mi) (active mi) [b] \<and> actionQueue mi = None \<and>
               activePriority mi = 10 \<and> allocated mi = allocated m - {a} \<and>
               (next (act cls (heap ?ms b)) = None \<longrightarrow>
                  (\<exists>mf. execute cls ?ms = Some mf \<and> activePriority mf = 10 \<and>
                        actionQueue mf = None \<and> a \<notin> allocated mf \<and>
                        (if isComplete cls (act cls (heap ?ms b))
                         then active mf = None \<and> b \<notin> allocated mf
                         else chain (heap mf) (active mf) [b] \<and>
                              (b \<in> allocated m \<longrightarrow> b \<in> allocated mf))))"
    if ci: "canInterrupt cls (heap ?ms b)"
  proof -
    let ?mi = "?ms\<lparr>allocated := allocated m - {a}, active := Some b,
                   activePriority := 10, actionQueue := None\<rparr>"
    have dl: "deleteList ?ms a = Some (delete a ?ms)"
      using ab A by (intro deleteList_single) simp
    have c: "checkInterrupts cls ?ms = Some ?mi"
      unfolding checkInterrupts_def
      using ci ab m A B
      by (subst checkInterrupts_loop.simps) (simp add: dl delete_def store_def set_next_def)
    have ad: "addAllToActive cls ?mi = Some ?mi"
      unfolding addAllToActive_def by (subst addAllToActive_loop.simps) simp
    have ex: "execute cls ?ms = runActive cls ?mi"
      using c ad by (simp add: execute_def)
    have fin: "\<exists>mf. execute cls ?ms = Some mf \<and> activePriority mf = 10 \<and>
                 actionQueue mf = None \<and> a \<notin> allocated mf \<and>
                 (if isComplete cls (act cls (heap ?ms b))
                  then active mf = None \<and> b \<notin> allocated mf
                  else chain (heap mf) (active mf) [b] \<and>
                       (b \<in> allocated m \<longrightarrow> b \<in> allocated mf))"
      if nx: "next (act cls (heap ?ms b)) = None"
      unfolding ex runActive_def
      using nx ab
      by (subst runActive_loop.simps)
         (simp add: Let_def store_def delete_def runActive_loop.simps)
    show ?thesis
      by (rule exI [of _ ?mi]) (use c ad ex fin in simp)
  qed
  have noint: "checkInterrupts cls ?ms = Some ?ms \<and> addAllToActive cls ?ms = Some ?ms \<and>
         execute cls ?ms = runActive cls ?ms \<and>
         (next (act cls (heap ?ms a)) = None \<longrightarrow>
            (\<exists>mf. execute cls ?ms = Some mf \<and> chain (heap mf) (actionQueue mf) [b] \<and>
                  activePriority mf = 5 \<and>
                  (if isComplete cls (act cls (heap ?ms a))
                   then active mf = None \<and> a \<notin> allocated mf
                   else chain (heap mf) (active mf) [a] \<and>
                        (a \<in> allocated m \<longrightarrow> a \<in> allocated mf))))"
    if ci: "\<not> canInterrupt cls (heap ?ms b)"
      and cd: "\<not> (canDoBoth cls (heap ?ms a) (heap ?ms b) \<and>
                  canDoBoth cls (heap ?ms b) (heap ?ms a))"
  proof -
    have c: "checkInterrupts cls ?ms = Some ?ms"
      unfolding checkInterrupts_def
      using ci ab m A B
      by (subst checkInterrupts_loop.simps) (simp add: checkInterrupts_loop.simps)
    have inner: "addAllToActive_inner cls ?ms (Some a) b = Some False"
      using cd by (rule addAllToActive_inner_incompatible)
    have ad: "addAllToActive cls ?ms = Some ?ms"
      unfolding addAllToActive_def
      using m inner
      by (subst addAllToActive_loop.simps) (simp add: addAllToActive_loop.simps)
    have ex: "execute cls ?ms = runActive cls ?ms"
      using c ad by (simp add: execute_def)
    have fin: "\<exists>mf. execute cls ?ms = Some mf \<and> chain (heap mf) (actionQueue mf) [b] \<and>
                 activePriority mf = 5 \<and>
                 (if isComplete cls (act cls (heap ?ms a))
                  then active mf = None \<and> a \<notin> allocated mf
                  else chain (heap mf) (active mf) [a] \<and>
                       (a \<in> allocated m \<longrightarrow> a \<in> allocated mf))"
      if nx: "next (act cls (heap ?ms a)) = None"
      unfolding ex runActive_def
      using nx ab m A
      by (subst runActive_loop.simps)
         (simp add: Let_def store_def delete_def runActive_loop.simps)
    show ?thesis
      using c ad ex fin by simp
  qed
  show ?thesis
    by (rule exI [of _ ?ms]) (use s q ac ap int noint in blast)
qed

text \<open>
  The theorem at the actions 0 (priority 5, active) and 1 (priority 10): once with a
  class whose actions interrupt, once with a class whose actions neither interrupt nor
  combine. In the first run the action 1 ends as the active list and the action 0 is
  deleted; in the second the action 0 stays active and the action 1 stays queued.
\<close>

theorem priority_preemption_witness:
  "(\<exists>ms mf.
      scheduleAction
        \<lparr>activePriority = 5, actionQueue = None, active = Some 0,
         heap = three_actions 5 10 0, allocated = {0, 1, 2}\<rparr> 1 = Some ms \<and>
      execute interrupting_class ms = Some mf \<and>
      chain (heap mf) (active mf) [1] \<and> actionQueue mf = None \<and>
      activePriority mf = 10 \<and> 0 \<notin> allocated mf \<and> 1 \<in> allocated mf) \<and>
   (\<exists>ms mf.
      scheduleAction
        \<lparr>activePriority = 5, actionQueue = None, active = Some 0,
         heap = three_actions 5 10 0, allocated = {0, 1, 2}\<rparr> 1 = Some ms \<and>
      execute exclusive_class ms = Some mf \<and>
      chain (heap mf) (active mf) [0] \<and> chain (heap mf) (actionQueue mf) [1] \<and>
      activePriority mf = 5 \<and> 0 \<in> allocated mf)"
proof -
  let ?m = "\<lparr>activePriority = 5, actionQueue = None, active = Some 0,
             heap = three_actions 5 10 0, allocated = {0, 1, 2}\<rparr> :: unit ActionManager"
  have h: "(0::nat) \<noteq> 1" "active ?m = Some 0" "actionQueue ?m = None" "activePriority ?m = 5"
    "priority (heap ?m 0) = 5" "next (heap ?m 0) = None" "priority (heap ?m 1) = 10"
    by (simp_all add: three_actions_def)
  have al: "allocated ?m = {0, 1, 2}"
    by simp
  from priority_preemption [OF h, of interrupting_class]
  obtain ms mi mf where 1: "scheduleAction ?m 1 = Some ms"
    "execute interrupting_class ms = Some mf"
    "chain (heap mf) (active mf) [1]" "actionQueue mf = None"
    "activePriority mf = 10" "0 \<notin> allocated mf" "1 \<in> allocated mf"
    unfolding al by (auto simp: interrupting_class_def)
  from priority_preemption [OF h, of exclusive_class]
  obtain ms' mf' where 2: "scheduleAction ?m 1 = Some ms'"
    "execute exclusive_class ms' = Some mf'"
    "chain (heap mf') (active mf') [0]" "chain (heap mf') (actionQueue mf') [1]"
    "activePriority mf' = 5" "0 \<in> allocated mf'"
    unfolding al by (auto simp: exclusive_class_def)
  show ?thesis
  proof (rule conjI)
    show "\<exists>ms mf. scheduleAction ?m 1 = Some ms \<and>
      execute interrupting_class ms = Some mf \<and>
      chain (heap mf) (active mf) [1] \<and> actionQueue mf = None \<and>
      activePriority mf = 10 \<and> 0 \<notin> allocated mf \<and> 1 \<in> allocated mf"
      by (rule exI [of _ ms], rule exI [of _ mf]) (intro conjI 1)
    show "\<exists>ms mf. scheduleAction ?m 1 = Some ms \<and>
      execute exclusive_class ms = Some mf \<and>
      chain (heap mf) (active mf) [0] \<and> chain (heap mf) (actionQueue mf) [1] \<and>
      activePriority mf = 5 \<and> 0 \<in> allocated mf"
      by (rule exI [of _ ms'], rule exI [of _ mf']) (intro conjI 2)
  qed
qed

section \<open>The negotiation loop\<close>

declare negotiate.simps [simp del]

text \<open>The guard \<open>canMergeGoals\<close> keeps the assertion of \<open>updateGoal\<close> from failing.\<close>

lemma targeters_loop_Inr: "\<exists>g'. targeters_loop g ts = Inr g'"
proof (induction ts arbitrary: g)
  case Nil
  then show ?case by simp
next
  case (Cons t ts)
  show ?case
  proof (cases "canMergeGoals g (getGoal t)")
    case True
    then obtain g1 where "updateGoal g (getGoal t) = Inr g1"
      by (simp add: updateGoal_def Let_def)
    with True Cons.IH [of g1] show ?thesis
      by simp
  next
    case False
    with Cons.IH [of g] show ?thesis
      by simp
  qed
qed

lemma constraints_loop_Cons:
  "constraints_loop cc first p (c # cs) k s v =
     (let w = willViolate cc (flag_cleared first c) p s;
          upd = (fst w > 0 \<and> fst w < s);
          R = constraints_loop cc first p cs (Suc k) (if upd then fst w else s)
                (if upd then Some k else v)
      in (snd w # fst R, fst (snd R), snd (snd R)))"
  by (simp add: Let_def flag_cleared_def split: prod.splits)

declare constraints_loop.simps(2) [simp del]

lemma constraints_loop_lower:
  "constraints_loop cc first p (c # cs) k s v =
     (snd (willViolate cc (flag_cleared first c) p s) #
        fst (constraints_loop cc first p cs (Suc k)
               (fst (willViolate cc (flag_cleared first c) p s)) (Some k)),
      snd (constraints_loop cc first p cs (Suc k)
               (fst (willViolate cc (flag_cleared first c) p s)) (Some k)))"
  if "fst (willViolate cc (flag_cleared first c) p s) > 0"
    "fst (willViolate cc (flag_cleared first c) p s) < s"
  using that by (simp add: constraints_loop_Cons Let_def)

lemma constraints_loop_keep:
  "constraints_loop cc first p (c # cs) k s v =
     (snd (willViolate cc (flag_cleared first c) p s) #
        fst (constraints_loop cc first p cs (Suc k) s v),
      snd (constraints_loop cc first p cs (Suc k) s v))"
  if "\<not> (fst (willViolate cc (flag_cleared first c) p s) > 0 \<and>
         fst (willViolate cc (flag_cleared first c) p s) < s)"
  using that by (auto simp add: constraints_loop_Cons Let_def)

lemma constraints_loop_length:
  "length (fst (constraints_loop cc first p cs k s v)) = length cs"
  by (induction cs arbitrary: k s v) (simp_all add: constraints_loop_Cons Let_def)

text \<open>
  Either the loop has lowered the shortest violation, and then \<open>violatingConstraint\<close>
  is a position of the list, or both are as they were.
\<close>

lemma constraints_loop_result:
  "(fst (snd (constraints_loop cc first p cs k s v)) < s \<and>
      (\<exists>j < length cs. snd (snd (constraints_loop cc first p cs k s v)) = Some (k + j))) \<or>
   (fst (snd (constraints_loop cc first p cs k s v)) = s \<and>
      snd (snd (constraints_loop cc first p cs k s v)) = v)"
proof (induction cs arbitrary: k s v)
  case Nil
  then show ?case by simp
next
  case (Cons c cs)
  let ?w = "fst (willViolate cc (flag_cleared first c) p s)"
  show ?case
  proof (cases "?w > 0 \<and> ?w < s")
    case True
    let ?R = "constraints_loop cc first p cs (Suc k) ?w (Some k)"
    have eq: "snd (constraints_loop cc first p (c # cs) k s v) = snd ?R"
      using True by (simp add: constraints_loop_lower)
    from Cons.IH [of "Suc k" ?w "Some k"]
    consider (lower) j where "fst (snd ?R) < ?w" "j < length cs" "snd (snd ?R) = Some (Suc k + j)"
      | (same) "fst (snd ?R) = ?w" "snd (snd ?R) = Some k"
      by blast
    then show ?thesis
    proof cases
      case lower
      then have "fst (snd ?R) < s" "Suc j < length (c # cs)" "snd (snd ?R) = Some (k + Suc j)"
        using True by simp_all
      then show ?thesis
        unfolding eq by blast
    next
      case same
      then have "fst (snd ?R) < s" "0 < length (c # cs)" "snd (snd ?R) = Some (k + 0)"
        using True by simp_all
      then show ?thesis
        unfolding eq by blast
    qed
  next
    case False
    let ?R = "constraints_loop cc first p cs (Suc k) s v"
    have eq: "snd (constraints_loop cc first p (c # cs) k s v) = snd ?R"
      using False by (simp add: constraints_loop_keep)
    from Cons.IH [of "Suc k" s v]
    consider (lower) j where "fst (snd ?R) < s" "j < length cs" "snd (snd ?R) = Some (Suc k + j)"
      | (same) "fst (snd ?R) = s" "snd (snd ?R) = v"
      by blast
    then show ?thesis
    proof cases
      case lower
      then have "fst (snd ?R) < s" "Suc j < length (c # cs)" "snd (snd ?R) = Some (k + Suc j)"
        by simp_all
      then show ?thesis
        unfolding eq by blast
    next
      case same
      then show ?thesis
        unfolding eq by simp
    qed
  qed
qed

lemma constraints_loop_le:
  "fst (snd (constraints_loop cc first p cs k s v)) \<le> s"
  using constraints_loop_result [of cc first p cs k s v] by auto

text \<open>
  A constraint with the property \<open>P\<close> at position \<open>j\<close>, where \<open>P\<close> is kept by
  \<open>willViolate\<close> and by a change of the flag and makes \<open>willViolate\<close> return, on the
  path \<open>p\<close>, a positive value below \<open>getMaxPriority\<close> of \<open>p\<close>: then the loop ends
  with a shortest violation below \<open>getMaxPriority\<close>, and position \<open>j\<close> still has
  \<open>P\<close>.
\<close>

lemma constraints_loop_pathological:
  assumes wv: "\<And>c s. P c \<Longrightarrow>
      0 < fst (willViolate cc c p s) \<and> fst (willViolate cc c p s) < gm p \<and>
      P (snd (willViolate cc c p s))"
    and fl: "\<And>c b. P c \<Longrightarrow> P (c\<lparr>suggestionUsed := b\<rparr>)"
  shows "j < length cs \<Longrightarrow> P (cs ! j) \<Longrightarrow> s \<le> gm p \<Longrightarrow>
     fst (snd (constraints_loop cc first p cs k s v)) < gm p \<and>
     P (fst (constraints_loop cc first p cs k s v) ! j)"
proof (induction cs arbitrary: j k s v)
  case Nil
  then show ?case by simp
next
  case (Cons c cs)
  let ?c1 = "flag_cleared first c"
  let ?w = "fst (willViolate cc ?c1 p s)"
  let ?s' = "if ?w > 0 \<and> ?w < s then ?w else s"
  let ?v' = "if ?w > 0 \<and> ?w < s then Some k else v"
  let ?R = "constraints_loop cc first p cs (Suc k) ?s' ?v'"
  have eq: "constraints_loop cc first p (c # cs) k s v =
              (snd (willViolate cc ?c1 p s) # fst ?R, snd ?R)"
    by (simp add: constraints_loop_Cons Let_def)
  show ?case
  proof (cases j)
    case 0
    with Cons.prems have "P ?c1"
      by (simp add: flag_cleared_def fl)
    from wv [OF this, of s] have w: "0 < ?w" "?w < gm p" "P (snd (willViolate cc ?c1 p s))"
      by simp_all
    then have "?s' < gm p"
      by auto
    moreover have "fst (snd ?R) \<le> ?s'"
      by (rule constraints_loop_le)
    ultimately show ?thesis
      unfolding eq using w(3) 0 by simp
  next
    case (Suc j')
    have "?s' \<le> gm p"
      using Cons.prems(3) by auto
    with Cons.IH [of j' ?s' "Suc k" ?v'] Cons.prems Suc
    show ?thesis
      unfolding eq by simp
  qed
qed

text \<open>The three ways through one round of \<open>negotiate\<close>.\<close>

lemma negotiate_exhausted:
  "\<not> i < constraintSteps pipe \<Longrightarrow>
   negotiate gm cc pipe p g output i v tr =
     (case fallback pipe of
        Some fb \<Rightarrow>
          Inr \<lparr>pipe_after = pipe\<lparr>path := Some p\<rparr>, output_after = fb output,
               calls = tr @ [FallbackGetSteering]\<rparr>
      | None \<Rightarrow>
          Inr \<lparr>pipe_after = pipe\<lparr>path := Some p\<rparr>, output_after = output, calls = tr\<rparr>)"
  by (subst negotiate.simps) simp

lemma negotiate_solved:
  assumes "i < constraintSteps pipe"
    and "\<not> fst (snd (constraints_loop cc (i = 0) (getPath (actuator pipe) p g)
                        (constraints pipe) 0 (gm (getPath (actuator pipe) p g)) v))
           < gm (getPath (actuator pipe) p g)"
  shows "negotiate gm cc pipe p g output i v tr =
     Inr \<lparr>pipe_after =
            pipe\<lparr>constraints :=
                   fst (constraints_loop cc (i = 0) (getPath (actuator pipe) p g)
                          (constraints pipe) 0 (gm (getPath (actuator pipe) p g)) v),
                 path := Some (getPath (actuator pipe) p g)\<rparr>,
          output_after = getSteering (actuator pipe) output (getPath (actuator pipe) p g),
          calls = tr @ [GetPath g, ActuatorGetSteering]\<rparr>"
proof -
  obtain cs s v' where R:
    "constraints_loop cc (i = 0) (getPath (actuator pipe) p g) (constraints pipe) 0
       (gm (getPath (actuator pipe) p g)) v = (cs, s, v')"
    by (metis prod_cases3)
  show ?thesis
    using assms by (subst negotiate.simps) (simp add: Let_def R)
qed

lemma negotiate_violated:
  assumes "i < constraintSteps pipe"
    and "p1 = getPath (actuator pipe) p g"
    and "constraints_loop cc (i = 0) p1 (constraints pipe) 0 (gm p1) v = (cs, s, Some k)"
    and "s < gm p1"
  shows "negotiate gm cc pipe p g output i v tr =
     negotiate gm cc
       (pipe\<lparr>path := Some p1, constraints := cs[k := (cs ! k)\<lparr>suggestionUsed := True\<rparr>]\<rparr>)
       p1 (suggest cc (cs ! k) p1) output (Suc i) (Some k) (tr @ [GetPath g, Suggest k])"
  using assms
  by (subst negotiate.simps) (simp add: Let_def)

lemma iterations_simps [simp]:
  "iterations [] = 0"
  "iterations (GetPath g # tr) = Suc (iterations tr)"
  "iterations (Suggest k # tr) = iterations tr"
  "iterations (ActuatorGetSteering # tr) = iterations tr"
  "iterations (FallbackGetSteering # tr) = iterations tr"
  "iterations (tr @ tr') = iterations tr + iterations tr'"
  by (simp_all add: iterations_def)

lemma negotiate_wild:
  assumes "i < constraintSteps pipe"
    and "p1 = getPath (actuator pipe) p g"
    and "constraints_loop cc (i = 0) p1 (constraints pipe) 0 (gm p1) v = (cs, s, None)"
    and "s < gm p1"
  shows "negotiate gm cc pipe p g output i v tr = Inl WildPointer"
  using assms
  by (subst negotiate.simps) (simp add: Let_def)

text \<open>
  With such a constraint in the list, and an invariant \<open>J\<close> of the paths the actuator
  computes along the way, the loop never finds a solution: from step \<open>i\<close> it makes the
  remaining \<open>constraintSteps - i\<close> steps and then calls the fallback.
\<close>

lemma negotiate_never_solved:
  assumes wv: "\<And>c p s. P c \<Longrightarrow> J p \<Longrightarrow>
      0 < fst (willViolate cc c p s) \<and> fst (willViolate cc c p s) < gm p \<and>
      P (snd (willViolate cc c p s))"
    and fl: "\<And>c b. P c \<Longrightarrow> P (c\<lparr>suggestionUsed := b\<rparr>)"
    and Js: "\<And>c p. J p \<Longrightarrow> J (getPath acr p (suggest cc c p))"
  shows "n = constraintSteps pipe - i \<Longrightarrow> fallback pipe = Some fb \<Longrightarrow> actuator pipe = acr \<Longrightarrow>
     j < length (constraints pipe) \<Longrightarrow> P (constraints pipe ! j) \<Longrightarrow> J (getPath acr p g) \<Longrightarrow>
     \<exists>r tr'. negotiate gm cc pipe p g output i v tr = Inr r \<and>
        calls r = tr @ tr' @ [FallbackGetSteering] \<and>
        iterations tr' = constraintSteps pipe - i \<and>
        FallbackGetSteering \<notin> set tr' \<and> ActuatorGetSteering \<notin> set tr' \<and>
        output_after r = fb output"
proof (induction n arbitrary: pipe p g i v tr)
  case 0
  then have "\<not> i < constraintSteps pipe"
    by simp
  then have "negotiate gm cc pipe p g output i v tr =
      Inr \<lparr>pipe_after = pipe\<lparr>path := Some p\<rparr>, output_after = fb output,
           calls = tr @ [FallbackGetSteering]\<rparr>"
    using 0 by (simp add: negotiate_exhausted)
  then show ?case
    by (intro exI [of _ "\<lparr>pipe_after = pipe\<lparr>path := Some p\<rparr>, output_after = fb output,
           calls = tr @ [FallbackGetSteering]\<rparr>"] exI [of _ "[]"]) (use 0 in simp)
next
  case (Suc n)
  then have i: "i < constraintSteps pipe"
    by simp
  let ?p1 = "getPath (actuator pipe) p g"
  have J1: "J ?p1"
    using Suc.prems by simp
  obtain cs s v' where R:
    "constraints_loop cc (i = 0) ?p1 (constraints pipe) 0 (gm ?p1) v = (cs, s, v')"
    by (metis prod_cases3)
  have len: "length cs = length (constraints pipe)"
    using constraints_loop_length [of cc "i = 0" ?p1 "constraints pipe" 0 "gm ?p1" v] R
    by simp
  have "fst (snd (constraints_loop cc (i = 0) ?p1 (constraints pipe) 0 (gm ?p1) v)) < gm ?p1 \<and>
        P (fst (constraints_loop cc (i = 0) ?p1 (constraints pipe) 0 (gm ?p1) v) ! j)"
    using wv [OF _ J1] fl Suc.prems(4,5)
    by (intro constraints_loop_pathological [where P = P and gm = gm]) simp_all
  then have s: "s < gm ?p1" and Pj: "P (cs ! j)"
    using R by simp_all
  from constraints_loop_result [of cc "i = 0" ?p1 "constraints pipe" 0 "gm ?p1" v] s R
  obtain k where k: "k < length (constraints pipe)" "v' = Some k"
    by auto
  let ?pipe2 = "pipe\<lparr>path := Some ?p1,
                     constraints := cs[k := (cs ! k)\<lparr>suggestionUsed := True\<rparr>]\<rparr>"
  have step: "negotiate gm cc pipe p g output i v tr =
      negotiate gm cc ?pipe2 ?p1 (suggest cc (cs ! k) ?p1) output (Suc i) (Some k)
        (tr @ [GetPath g, Suggest k])"
    using i R s k(2) by (intro negotiate_violated) simp_all
  have P2: "P (constraints ?pipe2 ! j)"
    using Pj fl by (cases "j = k") (simp_all add: len k(1))
  have J2: "J (getPath acr ?p1 (suggest cc (cs ! k) ?p1))"
    using J1 by (rule Js)
  have "\<exists>r tr'. negotiate gm cc ?pipe2 ?p1 (suggest cc (cs ! k) ?p1) output (Suc i) (Some k)
                   (tr @ [GetPath g, Suggest k]) = Inr r \<and>
        calls r = (tr @ [GetPath g, Suggest k]) @ tr' @ [FallbackGetSteering] \<and>
        iterations tr' = constraintSteps ?pipe2 - Suc i \<and>
        FallbackGetSteering \<notin> set tr' \<and> ActuatorGetSteering \<notin> set tr' \<and>
        output_after r = fb output"
    using Suc.prems P2 J2 len by (intro Suc.IH) simp_all
  then obtain r tr' where r:
      "negotiate gm cc ?pipe2 ?p1 (suggest cc (cs ! k) ?p1) output (Suc i)
         (Some k) (tr @ [GetPath g, Suggest k]) = Inr r"
      "calls r = (tr @ [GetPath g, Suggest k]) @ tr' @ [FallbackGetSteering]"
      "iterations tr' = constraintSteps pipe - Suc i"
      "FallbackGetSteering \<notin> set tr'" "ActuatorGetSteering \<notin> set tr'"
      "output_after r = fb output"
    by auto
  show ?case
    using step r i
    by (intro exI [of _ r] exI [of _ "[GetPath g, Suggest k] @ tr'"]) simp
qed

text \<open>
  Without a fallback, a run that never called \<open>actuator->getSteering\<close> made all the
  remaining steps and returns the output it was given.
\<close>

lemma negotiate_no_fallback:
  "n = constraintSteps pipe - i \<Longrightarrow> fallback pipe = None \<Longrightarrow>
   negotiate gm cc pipe p g output i v tr = Inr r \<Longrightarrow>
   ActuatorGetSteering \<notin> set (calls r) \<Longrightarrow>
   output_after r = output \<and>
   (\<exists>tr'. calls r = tr @ tr' \<and> iterations tr' = constraintSteps pipe - i \<and>
          FallbackGetSteering \<notin> set tr')"
proof (induction n arbitrary: pipe p g i v tr)
  case 0
  then have "\<not> i < constraintSteps pipe"
    by simp
  then have "negotiate gm cc pipe p g output i v tr =
      Inr \<lparr>pipe_after = pipe\<lparr>path := Some p\<rparr>, output_after = output, calls = tr\<rparr>"
    using 0 by (simp add: negotiate_exhausted)
  with 0 show ?case
    by auto
next
  case (Suc n)
  then have i: "i < constraintSteps pipe"
    by simp
  let ?p1 = "getPath (actuator pipe) p g"
  obtain cs s v' where R:
    "constraints_loop cc (i = 0) ?p1 (constraints pipe) 0 (gm ?p1) v = (cs, s, v')"
    by (metis prod_cases3)
  show ?case
  proof (cases "s < gm ?p1")
    case False
    then have "negotiate gm cc pipe p g output i v tr =
        Inr \<lparr>pipe_after = pipe\<lparr>constraints := cs, path := Some ?p1\<rparr>,
             output_after = getSteering (actuator pipe) output ?p1,
             calls = tr @ [GetPath g, ActuatorGetSteering]\<rparr>"
      using i R by (subst negotiate.simps) (simp add: Let_def)
    with Suc.prems(3) have "calls r = tr @ [GetPath g, ActuatorGetSteering]"
      by auto
    with Suc.prems(4) show ?thesis
      by simp
  next
    case True
    show ?thesis
    proof (cases v')
      case None
      with True i R have "negotiate gm cc pipe p g output i v tr = Inl WildPointer"
        by (intro negotiate_wild) simp_all
      with Suc.prems(3) show ?thesis
        by simp
    next
      case (Some k)
      let ?pipe2 = "pipe\<lparr>path := Some ?p1,
                         constraints := cs[k := (cs ! k)\<lparr>suggestionUsed := True\<rparr>]\<rparr>"
      have step: "negotiate gm cc pipe p g output i v tr =
          negotiate gm cc ?pipe2 ?p1 (suggest cc (cs ! k) ?p1) output (Suc i) (Some k)
            (tr @ [GetPath g, Suggest k])"
        using i R True Some by (intro negotiate_violated) simp_all
      have "output_after r = output \<and>
            (\<exists>tr'. calls r = (tr @ [GetPath g, Suggest k]) @ tr' \<and>
                   iterations tr' = constraintSteps ?pipe2 - Suc i \<and>
                   FallbackGetSteering \<notin> set tr')"
        using Suc.prems step by (intro Suc.IH) simp_all
      then obtain tr' where t: "output_after r = output"
          "calls r = (tr @ [GetPath g, Suggest k]) @ tr'"
          "iterations tr' = constraintSteps pipe - Suc i" "FallbackGetSteering \<notin> set tr'"
        by auto
      show ?thesis
        using t i by (intro conjI exI [of _ "[GetPath g, Suggest k] @ tr'"]) simp_all
    qed
  qed
qed

text \<open>
  Every run of \<open>getSteering\<close> returns (the model is a total function), and it makes at
  most \<open>constraintSteps\<close> negotiation steps.
\<close>

lemma negotiate_iterations_le:
  "n = constraintSteps pipe - i \<Longrightarrow> negotiate gm cc pipe p g output i v tr = Inr r \<Longrightarrow>
   \<exists>tr'. calls r = tr @ tr' \<and> iterations tr' \<le> constraintSteps pipe - i"
proof (induction n arbitrary: pipe p g i v tr)
  case 0
  then have "\<not> i < constraintSteps pipe"
    by simp
  with 0 show ?case
    by (auto simp: negotiate_exhausted split: option.splits)
next
  case (Suc n)
  then have i: "i < constraintSteps pipe"
    by simp
  let ?p1 = "getPath (actuator pipe) p g"
  obtain cs s v' where R:
    "constraints_loop cc (i = 0) ?p1 (constraints pipe) 0 (gm ?p1) v = (cs, s, v')"
    by (metis prod_cases3)
  show ?case
  proof (cases "s < gm ?p1")
    case False
    then have "negotiate gm cc pipe p g output i v tr =
        Inr \<lparr>pipe_after = pipe\<lparr>constraints := cs, path := Some ?p1\<rparr>,
             output_after = getSteering (actuator pipe) output ?p1,
             calls = tr @ [GetPath g, ActuatorGetSteering]\<rparr>"
      using i R by (subst negotiate.simps) (simp add: Let_def)
    with Suc.prems(2) have "calls r = tr @ [GetPath g, ActuatorGetSteering]"
      by auto
    with i show ?thesis
      by (intro exI [of _ "[GetPath g, ActuatorGetSteering]"]) simp
  next
    case True
    show ?thesis
    proof (cases v')
      case None
      with True i R have "negotiate gm cc pipe p g output i v tr = Inl WildPointer"
        by (intro negotiate_wild) simp_all
      with Suc.prems(2) show ?thesis
        by simp
    next
      case (Some k)
      let ?pipe2 = "pipe\<lparr>path := Some ?p1,
                         constraints := cs[k := (cs ! k)\<lparr>suggestionUsed := True\<rparr>]\<rparr>"
      have step: "negotiate gm cc pipe p g output i v tr =
          negotiate gm cc ?pipe2 ?p1 (suggest cc (cs ! k) ?p1) output (Suc i) (Some k)
            (tr @ [GetPath g, Suggest k])"
        using i R True Some by (intro negotiate_violated) simp_all
      have "\<exists>tr'. calls r = (tr @ [GetPath g, Suggest k]) @ tr' \<and>
                   iterations tr' \<le> constraintSteps ?pipe2 - Suc i"
        using Suc.prems step by (intro Suc.IH) simp_all
      then obtain tr' where t: "calls r = (tr @ [GetPath g, Suggest k]) @ tr'"
          "iterations tr' \<le> constraintSteps pipe - Suc i"
        by auto
      show ?thesis
        using t i by (intro exI [of _ "[GetPath g, Suggest k] @ tr'"]) simp
    qed
  qed
qed

lemma negotiate_returns:
  "n = constraintSteps pipe - i \<Longrightarrow> \<exists>r. negotiate gm cc pipe p g output i v tr = Inr r"
proof (induction n arbitrary: pipe p g i v tr)
  case 0
  then have "\<not> i < constraintSteps pipe"
    by simp
  then show ?case
    by (simp add: negotiate_exhausted split: option.splits)
next
  case (Suc n)
  then have i: "i < constraintSteps pipe"
    by simp
  let ?p1 = "getPath (actuator pipe) p g"
  obtain cs s v' where R:
    "constraints_loop cc (i = 0) ?p1 (constraints pipe) 0 (gm ?p1) v = (cs, s, v')"
    by (metis prod_cases3)
  show ?case
  proof (cases "s < gm ?p1")
    case False
    then show ?thesis
      using i R by (subst negotiate.simps) (simp add: Let_def)
  next
    case True
    with constraints_loop_result [of cc "i = 0" ?p1 "constraints pipe" 0 "gm ?p1" v] R
    obtain k where k: "v' = Some k"
      by auto
    let ?pipe2 = "pipe\<lparr>path := Some ?p1,
                       constraints := cs[k := (cs ! k)\<lparr>suggestionUsed := True\<rparr>]\<rparr>"
    have step: "negotiate gm cc pipe p g output i v tr =
        negotiate gm cc ?pipe2 ?p1 (suggest cc (cs ! k) ?p1) output (Suc i) (Some k)
          (tr @ [GetPath g, Suggest k])"
      using i R True k by (intro negotiate_violated) simp_all
    have "\<exists>r. negotiate gm cc ?pipe2 ?p1 (suggest cc (cs ! k) ?p1) output (Suc i) (Some k)
            (tr @ [GetPath g, Suggest k]) = Inr r"
      using Suc.prems by (intro Suc.IH) simp
    with step show ?thesis
      by simp
  qed
qed

lemma getSteering_returns_bounded:
  "\<exists>r. SteeringPipe_getSteering gm cc ori rot pipe output = Inr r \<and>
       iterations (calls r) \<le> constraintSteps pipe"
proof -
  obtain g1 where g1: "targeters_loop (Goal_new ori rot) (targeters pipe) = Inr g1"
    using targeters_loop_Inr by blast
  let ?g2 = "decomposers_loop g1 (decomposers pipe)"
  let ?p = "case path pipe of None \<Rightarrow> createPathObject (actuator pipe) | Some p \<Rightarrow> p"
  let ?n = "negotiate gm cc (pipe\<lparr>path := Some ?p\<rparr>) ?p ?g2 output 0 None []"
  have e: "SteeringPipe_getSteering gm cc ori rot pipe output = ?n"
    by (simp add: SteeringPipe_getSteering_def g1 Let_def)
  have "\<exists>r. ?n = Inr r"
    by (rule negotiate_returns [where n = "constraintSteps pipe"]) simp
  then obtain r where r: "?n = Inr r"
    by blast
  from negotiate_iterations_le [OF _ r, of "constraintSteps pipe"]
  have "iterations (calls r) \<le> constraintSteps pipe"
    by auto
  with e r show ?thesis
    by simp
qed

section \<open>SteeringPipe::getSteering\<close>

text \<open>
  C5. Bounded negotiation with fallback. The pipeline has a fallback \<open>fb\<close> and, at
  some position \<open>j\<close> of its constraint list, a constraint with a property \<open>P\<close> that
  \<open>willViolate\<close> and a change of the flag \<open>suggestionUsed\<close> preserve, such that
  \<open>willViolate\<close> on a constraint with \<open>P\<close> returns a positive value strictly below
  \<open>getMaxPriority\<close> of the path. (\<open>J\<close> is an invariant of the paths that can occur:
  it holds of the path the actuator computes for the goal of the targeters and
  decomposers, and is kept when the actuator
  computes the path for a suggested goal. \<open>J\<close> may be taken as true of every path.) Then
  \<open>getSteering\<close> makes exactly \<open>constraintSteps\<close> negotiation steps, never calls
  \<open>actuator->getSteering\<close>, calls the fallback once, as its last call, and returns the
  output the fallback wrote.
\<close>

theorem negotiation_bounded_with_fallback:
  assumes fb: "fallback pipe = Some fb"
    and j: "j < length (constraints pipe)" "P (constraints pipe ! j)"
    and wv: "\<And>c p s. P c \<Longrightarrow> J p \<Longrightarrow>
      0 < fst (willViolate cc c p s) \<and> fst (willViolate cc c p s) < gm p \<and>
      P (snd (willViolate cc c p s))"
    and fl: "\<And>c b. P c \<Longrightarrow> P (c\<lparr>suggestionUsed := b\<rparr>)"
    and J0: "\<And>g1. targeters_loop (Goal_new ori rot) (targeters pipe) = Inr g1 \<Longrightarrow>
      J (getPath (actuator pipe)
           (case path pipe of None \<Rightarrow> createPathObject (actuator pipe) | Some p \<Rightarrow> p)
           (decomposers_loop g1 (decomposers pipe)))"
    and Js: "\<And>c p. J p \<Longrightarrow> J (getPath (actuator pipe) p (suggest cc c p))"
  shows "\<exists>r tr'. SteeringPipe_getSteering gm cc ori rot pipe output = Inr r \<and>
           calls r = tr' @ [FallbackGetSteering] \<and>
           iterations tr' = constraintSteps pipe \<and>
           FallbackGetSteering \<notin> set tr' \<and> ActuatorGetSteering \<notin> set tr' \<and>
           output_after r = fb output"
proof -
  obtain g1 where g1: "targeters_loop (Goal_new ori rot) (targeters pipe) = Inr g1"
    using targeters_loop_Inr by blast
  let ?g2 = "decomposers_loop g1 (decomposers pipe)"
  let ?p = "case path pipe of None \<Rightarrow> createPathObject (actuator pipe) | Some p \<Rightarrow> p"
  have "\<exists>r tr'. negotiate gm cc (pipe\<lparr>path := Some ?p\<rparr>) ?p ?g2 output 0 None [] = Inr r \<and>
          calls r = [] @ tr' @ [FallbackGetSteering] \<and>
          iterations tr' = constraintSteps (pipe\<lparr>path := Some ?p\<rparr>) - 0 \<and>
          FallbackGetSteering \<notin> set tr' \<and> ActuatorGetSteering \<notin> set tr' \<and>
          output_after r = fb output"
    using fb j J0 [OF g1]
    by (intro negotiate_never_solved [where P = P and J = J and acr = "actuator pipe"
          and n = "constraintSteps pipe", OF wv fl Js])
       simp_all
  then show ?thesis
    by (simp add: SteeringPipe_getSteering_def g1 Let_def)
qed

text \<open>
  The theorem at the example pipeline (three steps, the stubborn constraint, a
  fallback that clears the output): three steps are made and the output is cleared. The
  invariant is that the path leads from the character at the origin to the goal position
  (1, 0, 0), so that \<open>getMaxPriority\<close> is 1 and the reported violation is 1/2.
\<close>

theorem negotiation_bounded_with_fallback_witness:
  "\<exists>r tr'. SteeringPipe_getSteering Path_getMaxPriority stubborn_class 0 0
              example_pipe example_output = Inr r \<and>
     calls r = tr' @ [FallbackGetSteering] \<and> iterations tr' = 3 \<and>
     FallbackGetSteering \<notin> set tr' \<and> ActuatorGetSteering \<notin> set tr' \<and>
     output_after r = \<lparr>linear = Vector3_zero, angular = 0\<rparr>"
proof -
  have tg: "targeters_loop (Goal_new 0 0) (targeters example_pipe) = Inr example_goal"
    by (simp add: example_pipe_def example_goal_def Goal_new_def clear_def canMergeGoals_def
          updateGoal_def)
  have mp: "Path_getMaxPriority p = 1"
    if "Path.character p = example_character \<and> goal p = example_goal" for p :: Path
    using that
    by (simp add: Path_getMaxPriority_def example_character_def example_goal_def
          magnitude_def Vector3_sub_def Vector3_zero_def)
  have "\<exists>r tr'. SteeringPipe_getSteering Path_getMaxPriority stubborn_class 0 0
              example_pipe example_output = Inr r \<and>
     calls r = tr' @ [FallbackGetSteering] \<and> iterations tr' = constraintSteps example_pipe \<and>
     FallbackGetSteering \<notin> set tr' \<and> ActuatorGetSteering \<notin> set tr' \<and>
     output_after r = SteeringOutput_clear example_output"
  proof (rule negotiation_bounded_with_fallback
           [where P = "\<lambda>c. True"
            and J = "\<lambda>p. Path.character p = example_character \<and> goal p = example_goal"
            and j = 0])
    show "fallback example_pipe = Some SteeringOutput_clear"
      by (simp add: example_pipe_def)
    show "0 < length (constraints example_pipe)"
      by (simp add: example_pipe_def)
    show "True"
      by simp
    show "0 < fst (willViolate stubborn_class c p s) \<and>
          fst (willViolate stubborn_class c p s) < Path_getMaxPriority p \<and> True"
      if "Path.character p = example_character \<and> goal p = example_goal"
      for c :: Constraint and p :: Path and s
      using mp [OF that] by (simp add: stubborn_class_def)
    show "True"
      by simp
    show "Path.character (getPath (actuator example_pipe)
             (case path example_pipe of None \<Rightarrow> createPathObject (actuator example_pipe)
              | Some p \<Rightarrow> p) (decomposers_loop g1 (decomposers example_pipe))) =
            example_character \<and>
          goal (getPath (actuator example_pipe)
             (case path example_pipe of None \<Rightarrow> createPathObject (actuator example_pipe)
              | Some p \<Rightarrow> p) (decomposers_loop g1 (decomposers example_pipe))) = example_goal"
      if "targeters_loop (Goal_new 0 0) (targeters example_pipe) = Inr g1" for g1
      using that tg by (simp add: example_pipe_def BasicActuator_def)
    show "Path.character (getPath (actuator example_pipe) p (suggest stubborn_class c p)) =
            example_character \<and>
          goal (getPath (actuator example_pipe) p (suggest stubborn_class c p)) = example_goal"
      if "Path.character p = example_character \<and> goal p = example_goal"
      for c :: Constraint and p :: Path
      using that by (simp add: example_pipe_def BasicActuator_def stubborn_class_def)
  qed
  then show ?thesis
    by (simp add: example_pipe_def SteeringOutput_clear_def example_output_def)
qed

text \<open>
  C8. Convergence without constraints, as the code has it: when the constraint list is
  empty and \<open>constraintSteps\<close> is at least 1, \<open>getSteering\<close> leaves the loop in its
  first step through the branch without violation. It calls \<open>actuator->getPath\<close> once,
  for the goal \<open>g2\<close> that the targeters and decomposers produce, then
  \<open>actuator->getSteering\<close> once on that path \<open>p1\<close>, and nothing else; the output is
  what the actuator wrote, and the fallback is not called.
\<close>

theorem no_constraints_one_iteration:
  assumes "constraints pipe = []" and "0 < constraintSteps pipe"
  shows "\<exists>g1. targeters_loop (Goal_new ori rot) (targeters pipe) = Inr g1 \<and>
     (let g2 = decomposers_loop g1 (decomposers pipe);
          p0 = (case path pipe of None \<Rightarrow> createPathObject (actuator pipe) | Some p \<Rightarrow> p);
          p1 = getPath (actuator pipe) p0 g2
      in SteeringPipe_getSteering gm cc ori rot pipe output =
           Inr \<lparr>pipe_after = pipe\<lparr>path := Some p1\<rparr>,
                output_after = getSteering (actuator pipe) output p1,
                calls = [GetPath g2, ActuatorGetSteering]\<rparr>)"
proof -
  obtain g1 where g1: "targeters_loop (Goal_new ori rot) (targeters pipe) = Inr g1"
    using targeters_loop_Inr by blast
  have "pipe\<lparr>path := Some p1, constraints := []\<rparr> = pipe\<lparr>path := Some p1\<rparr>" for p1
    using assms(1) by simp
  then show ?thesis
    using assms
    by (intro exI [of _ g1])
       (simp add: SteeringPipe_getSteering_def g1 Let_def negotiate.simps [of _ _ _ _ _ _ 0])
qed

text \<open>The theorem at the example pipeline without its constraint: one step, and the
  output is the basic actuator's, a unit acceleration towards the goal at (1, 0, 0).\<close>

theorem no_constraints_one_iteration_witness:
  "map_sum id (\<lambda>r. (calls r, output_after r))
     (SteeringPipe_getSteering Path_getMaxPriority stubborn_class 0 0
        (example_pipe\<lparr>constraints := []\<rparr>) example_output) =
   Inr ([GetPath example_goal, ActuatorGetSteering],
        \<lparr>linear = \<lparr>vx = 1, vy = 0, vz = 0\<rparr>, angular = 5\<rparr>)"
proof -
  have tg: "targeters_loop (Goal_new 0 0) (targeters (example_pipe\<lparr>constraints := []\<rparr>)) =
              Inr example_goal"
    by (simp add: example_pipe_def example_goal_def Goal_new_def clear_def canMergeGoals_def
          updateGoal_def)
  have "constraints (example_pipe\<lparr>constraints := []\<rparr>) = []"
    and "0 < constraintSteps (example_pipe\<lparr>constraints := []\<rparr>)"
    by (simp_all add: example_pipe_def)
  from no_constraints_one_iteration [OF this, of 0 0 Path_getMaxPriority stubborn_class]
  show ?thesis
    unfolding tg
    by (simp add: Let_def example_pipe_def BasicActuator_def example_goal_def
          example_output_def example_character_def Seek_getSteering_def
          squareMagnitude_def normalise_def magnitude_def Vector3_sub_def Vector3_scale_def
          Vector3_zero_def)
qed

text \<open>Against C8 as stated: with \<open>constraintSteps = 0\<close> and no constraints there is no
  first step. \<open>getSteering\<close> calls the fallback and never the actuator.\<close>

theorem no_constraints_zero_steps_counterexample:
  "map_sum id (\<lambda>r. (calls r, output_after r))
     (SteeringPipe_getSteering Path_getMaxPriority stubborn_class 0 0
        (example_pipe\<lparr>constraints := [], constraintSteps := 0\<rparr>) example_output) =
   Inr ([FallbackGetSteering], \<lparr>linear = Vector3_zero, angular = 0\<rparr>)"
  by (simp add: SteeringPipe_getSteering_def example_pipe_def example_goal_def Goal_new_def
        clear_def canMergeGoals_def updateGoal_def Let_def negotiate.simps [of _ _ _ _ _ _ 0]
        SteeringOutput_clear_def example_output_def)

text \<open>
  C10. No fallback and no solution. If no fallback is configured and the run of
  \<open>getSteering\<close> never reaches \<open>actuator->getSteering\<close> (the negotiation loop runs out
  of steps), then the output is returned exactly as it was passed in; all
  \<open>constraintSteps\<close> steps were made and no fallback was called.
\<close>

theorem exhausted_without_fallback_keeps_output:
  assumes "fallback pipe = None"
    and "SteeringPipe_getSteering gm cc ori rot pipe output = Inr r"
    and "ActuatorGetSteering \<notin> set (calls r)"
  shows "output_after r = output \<and> iterations (calls r) = constraintSteps pipe \<and>
         FallbackGetSteering \<notin> set (calls r)"
proof -
  obtain g1 where g1: "targeters_loop (Goal_new ori rot) (targeters pipe) = Inr g1"
    using targeters_loop_Inr by blast
  let ?g2 = "decomposers_loop g1 (decomposers pipe)"
  let ?p = "case path pipe of None \<Rightarrow> createPathObject (actuator pipe) | Some p \<Rightarrow> p"
  have n: "negotiate gm cc (pipe\<lparr>path := Some ?p\<rparr>) ?p ?g2 output 0 None [] = Inr r"
    using assms(2) by (simp add: SteeringPipe_getSteering_def g1 Let_def)
  have "output_after r = output \<and>
        (\<exists>tr'. calls r = [] @ tr' \<and>
               iterations tr' = constraintSteps (pipe\<lparr>path := Some ?p\<rparr>) - 0 \<and>
               FallbackGetSteering \<notin> set tr')"
    using assms(1,3) n
    by (intro negotiate_no_fallback [where n = "constraintSteps pipe"]) simp_all
  then show ?thesis
    by auto
qed

text \<open>The theorem at the example pipeline with the fallback removed: the stubborn
  constraint uses up the three steps and the output comes back untouched.\<close>

theorem exhausted_without_fallback_keeps_output_witness:
  "\<exists>r. SteeringPipe_getSteering Path_getMaxPriority stubborn_class 0 0
          (example_pipe\<lparr>fallback := None\<rparr>) example_output = Inr r \<and>
       ActuatorGetSteering \<notin> set (calls r) \<and>
       output_after r = example_output \<and> iterations (calls r) = 3 \<and>
       FallbackGetSteering \<notin> set (calls r)"
proof -
  have "\<exists>r. SteeringPipe_getSteering Path_getMaxPriority stubborn_class 0 0
          (example_pipe\<lparr>fallback := None\<rparr>) example_output = Inr r \<and>
       ActuatorGetSteering \<notin> set (calls r)"
    by (simp add: SteeringPipe_getSteering_def example_pipe_def example_goal_def Goal_new_def
          clear_def canMergeGoals_def updateGoal_def Let_def negotiate.simps
          constraints_loop.simps stubborn_class_def BasicActuator_def Path_getMaxPriority_def
          example_character_def magnitude_def Vector3_sub_def Vector3_zero_def)
  then obtain r where r: "SteeringPipe_getSteering Path_getMaxPriority stubborn_class 0 0
          (example_pipe\<lparr>fallback := None\<rparr>) example_output = Inr r"
      "ActuatorGetSteering \<notin> set (calls r)"
    by blast
  have "fallback (example_pipe\<lparr>fallback := None\<rparr>) = None"
    by simp
  from exhausted_without_fallback_keeps_output [OF this r]
  show ?thesis
    using r by (intro exI [of _ r]) (simp add: example_pipe_def)
qed

end
